theory Spec2Isabelle
  imports Complex_Main
begin

section \<open>GitHub activity: the paginated GraphQL search of \<open>github_activity/graphql.py\<close>\<close>

text \<open>
  The module holds one class, \<open>GitHubGraphQlQuery\<close>, whose method \<open>request\<close> posts a
  search document page after page, collects the returned nodes and builds a pandas
  DataFrame with three derived columns. The model below follows the method line by line.

  Scope of the model:
  \<^item> the remote endpoint is a parameter \<open>server\<close>: the reply to the \<open>ii\<close>-th POST of a call
    as a function of the posted document; a POST always comes back with a reply, and a
    reply with status 200 has a JSON object as its body;
  \<^item> a reply that carries data follows the GraphQL schema of the query: \<open>issueCount\<close> is an
    integer, \<open>hasNextPage\<close> a boolean, \<open>endCursor\<close> a string or null, \<open>nodes\<close> a list of
    objects; the objects themselves stay untyped (key/value lists of JSON values);
  \<^item> Python exceptions are values of the type \<open>error\<close>, and a function that may raise
    returns \<open>error + 'a\<close>;
  \<^item> the attributes of the query object, the documents posted and the lines printed are
    fields of one state that every step passes on;
  \<^item> the division of line 145 is floating point: its result is the double nearest to the
    exact quotient, written as the real number that double denotes;
  \<^item> the progress widget of lines 147 to 155, 163 and 165 displays, and what it displays is
    left out; its constructor checks its bounds and raises \<open>TraitError\<close> for a maximum
    below its minimum 0, and this exception is modelled.
\<close>

subsection \<open>Values\<close>

datatype json =
    JNull
  | JBool bool
  | JInt int
  | JStr string
  | JArr "json list"
  | JObj "(string \<times> json) list"

text \<open>A decoded JSON object is a Python dict: every key occurs once.\<close>

type_synonym raw_record = "(string \<times> json) list"

datatype error =
    Exception string
  | KeyError string
  | IndexError
  | TypeError
  | AttributeError
  | ZeroDivisionError
  | OverflowError
  | UnboundLocalError
  | TraitError

text \<open>Sequencing of a computation that may raise.\<close>

definition and_then :: "error + 'a \<Rightarrow> ('a \<Rightarrow> error + 'b) \<Rightarrow> error + 'b" where
  "and_then r f = (case r of Inl e \<Rightarrow> Inl e | Inr x \<Rightarrow> f x)"

subsection \<open>Strings\<close>

text \<open>\<open>str(n)\<close> for an integer, as \<open>'%s' % n\<close> and \<open>'{}'.format(n)\<close> render it.\<close>

definition digit_char :: "nat \<Rightarrow> char" where
  "digit_char d = char_of (48 + d)"

fun str_nat :: "nat \<Rightarrow> string" where
  "str_nat n = (if n < 10 then [digit_char n] else str_nat (n div 10) @ [digit_char (n mod 10)])"

declare str_nat.simps [simp del]

definition str_int :: "int \<Rightarrow> string" where
  "str_int i = (if i < 0 then CHR ''-'' # str_nat (nat (- i)) else str_nat (nat i))"

text \<open>\<open>sep.join(xs)\<close>.\<close>

fun join :: "string \<Rightarrow> string list \<Rightarrow> string" where
  "join sep [] = []"
| "join sep [x] = x"
| "join sep (x # y # ys) = x @ sep @ join sep (y # ys)"

text \<open>\<open>s.split(c)\<close> for a one-character separator: every occurrence splits, empty pieces are
  kept, and the result is never empty.\<close>

fun split :: "char \<Rightarrow> string \<Rightarrow> string list" where
  "split c [] = [[]]"
| "split c (x # xs) =
     (if x = c then [] # split c xs
      else (case split c xs of [] \<Rightarrow> [[x]] | w # ws \<Rightarrow> (x # w) # ws))"

text \<open>\<open>xs[i]\<close> for a non-negative index.\<close>

definition index :: "'a list \<Rightarrow> nat \<Rightarrow> error + 'a" where
  "index xs i = (if i < length xs then Inr (xs ! i) else Inl IndexError)"

subsection \<open>The DataFrame\<close>

text \<open>
  A frame is its column names and its rows, each row holding one cell per column. A cell is
  a value, or \<open>NaN\<close> where the record the row was built from lacks the column's key.
  The method reads the columns \<open>author\<close> and \<open>url\<close> only; their cells are dicts, strings and
  \<open>None\<close>, which pandas keeps as they are.
\<close>

datatype cell = Val json | NaN

record data_frame =
  columns :: "string list"
  rows :: "cell list list"

text \<open>\<open>pd.DataFrame()\<close>.\<close>

definition empty_frame :: data_frame where
  "empty_frame = \<lparr>columns = [], rows = []\<rparr>"

text \<open>\<open>pd.DataFrame(records)\<close> for a list of dicts: the columns are the keys in order of
  first appearance.\<close>

definition cell_of :: "raw_record \<Rightarrow> string \<Rightarrow> cell" where
  "cell_of r c = (case map_of r c of None \<Rightarrow> NaN | Some v \<Rightarrow> Val v)"

definition DataFrame :: "raw_record list \<Rightarrow> data_frame" where
  "DataFrame rs =
     (let cs = rev (remdups (rev (concat (map (map fst) rs))))
      in \<lparr>columns = cs, rows = map (\<lambda>r. map (cell_of r) cs) rs\<rparr>)"

text \<open>\<open>df[c]\<close>: the column as a list of cells, or \<open>KeyError\<close>.\<close>

fun position :: "string \<Rightarrow> string list \<Rightarrow> nat option" where
  "position c [] = None"
| "position c (x # xs) = (if x = c then Some 0 else map_option Suc (position c xs))"

definition get_column :: "data_frame \<Rightarrow> string \<Rightarrow> error + cell list" where
  "get_column df c =
     (case position c (columns df) of
        None \<Rightarrow> Inl (KeyError c)
      | Some i \<Rightarrow> Inr (map (\<lambda>row. row ! i) (rows df)))"

text \<open>\<open>df[c] = series\<close>: replaces the column when it exists, appends it otherwise. The
  series comes from a column of the same frame, so it has one cell per row.\<close>

definition set_column :: "data_frame \<Rightarrow> string \<Rightarrow> cell list \<Rightarrow> data_frame" where
  "set_column df c vs =
     (case position c (columns df) of
        None \<Rightarrow> \<lparr>columns = columns df @ [c], rows = map (\<lambda>(row, v). row @ [v]) (zip (rows df) vs)\<rparr>
      | Some i \<Rightarrow> \<lparr>columns = columns df, rows = map (\<lambda>(row, v). row[i := v]) (zip (rows df) vs)\<rparr>)"

text \<open>\<open>series.map(f)\<close>: \<open>f\<close> on every cell in order; the first exception ends it.\<close>

fun series_map :: "(cell \<Rightarrow> error + cell) \<Rightarrow> cell list \<Rightarrow> error + cell list" where
  "series_map f [] = Inr []"
| "series_map f (x # xs) =
     and_then (f x) (\<lambda>y. and_then (series_map f xs) (\<lambda>ys. Inr (y # ys)))"

subsection \<open>The three derived fields (lines 172 to 174)\<close>

text \<open>\<open>lambda a: a['login'] if a is not None else a\<close>. Subscripting with a string raises
  \<open>KeyError\<close> on a dict without the key and \<open>TypeError\<close> on anything that is not a dict.\<close>

fun author_login :: "cell \<Rightarrow> error + cell" where
  "author_login (Val JNull) = Inr (Val JNull)"
| "author_login (Val (JObj kvs)) =
     (case map_of kvs ''login'' of None \<Rightarrow> Inl (KeyError ''login'') | Some v \<Rightarrow> Inr (Val v))"
| "author_login _ = Inl TypeError"

text \<open>\<open>lambda a: a.split('/')[k]\<close>. Only a string has \<open>split\<close>.\<close>

fun url_segment :: "nat \<Rightarrow> cell \<Rightarrow> error + cell" where
  "url_segment k (Val (JStr s)) = and_then (index (split CHR ''/'' s) k) (\<lambda>w. Inr (Val (JStr w)))"
| "url_segment k _ = Inl AttributeError"

subsection \<open>True division and the expected page count (line 145)\<close>

text \<open>
  \<open>a / b\<close> on two Python integers is the double nearest to the exact quotient, ties to
  even; it raises \<open>ZeroDivisionError\<close> for \<open>b = 0\<close> and \<open>OverflowError\<close> when the rounded
  quotient is beyond the doubles. A double is represented by the real number it denotes.
  For a positive quotient \<open>q\<close> with \<open>2^e \<le> q < 2^(e+1)\<close> the doubles around \<open>q\<close> are the
  multiples of \<open>2^(e - 52)\<close>, and of \<open>2^(-1074)\<close> below the normal range.
\<close>

definition pow2 :: "int \<Rightarrow> real" where
  "pow2 e = (if 0 \<le> e then 2 ^ nat e else 1 / 2 ^ nat (- e))"

fun bit_length :: "nat \<Rightarrow> nat" where
  "bit_length n = (if n = 0 then 0 else Suc (bit_length (n div 2)))"

declare bit_length.simps [simp del]

definition round_half_even :: "real \<Rightarrow> int" where
  "round_half_even x =
     (let f = \<lfloor>x\<rfloor>; r = x - of_int f
      in if r < 1 / 2 then f else if 1 / 2 < r then f + 1 else if even f then f else f + 1)"

definition float_quotient :: "nat \<Rightarrow> nat \<Rightarrow> error + real" where
  "float_quotient a b =
     (let q = of_nat a / of_nat b;
          e0 = int (bit_length a) - int (bit_length b);
          e = (if pow2 e0 \<le> q then e0 else e0 - 1);
          u = pow2 (max e (- 1022) - 52);
          v = of_int (round_half_even (q / u)) * u
      in if pow2 1024 \<le> v then Inl OverflowError else Inr v)"

definition true_div :: "int \<Rightarrow> int \<Rightarrow> error + real" where
  "true_div a b =
     (if b = 0 then Inl ZeroDivisionError
      else if a = 0 then Inr 0
      else and_then (float_quotient (nat \<bar>a\<bar>) (nat \<bar>b\<bar>))
             (\<lambda>v. Inr (if (a < 0) = (b < 0) then v else - v)))"

text \<open>\<open>int(np.ceil(issueCount / n_per_page))\<close>: the ceiling of a double is exact.\<close>

definition expected_pages :: "int \<Rightarrow> int \<Rightarrow> error + int" where
  "expected_pages issue_count n_per_page =
     and_then (true_div issue_count n_per_page) (\<lambda>v. Inr \<lceil>v\<rceil>)"

subsection \<open>The query document (lines 10 to 74 and 117 to 129)\<close>

text \<open>A triple-quoted block is its lines, each ended by a newline.\<close>

definition unlines :: "string list \<Rightarrow> string" where
  "unlines ls = concat (map (\<lambda>l. l @ [CHR 0x0A]) ls)"

definition comments_query :: string where
  \<open>comments_query = unlines
     [''        comments(last: 100) {'',
      ''          edges {'',
      ''            node {'',
      ''              authorAssociation'',
      ''              createdAt'',
      ''              updatedAt'',
      ''              url'',
      ''              author {'',
      ''                login'',
      ''              }'',
      ''            }'',
      ''          }'',
      ''        }'']\<close>

definition base_elements :: string where
  \<open>base_elements = unlines
     [''        state'',
      ''        id'',
      ''        title'',
      ''        url'',
      ''        createdAt'',
      ''        updatedAt'',
      ''        closedAt'',
      ''        labels(first: 10) {'',
      ''            edges {'',
      ''                node {'',
      ''                    name'',
      ''                }'',
      ''            }'',
      ''        }'',
      ''        number'',
      ''        authorAssociation'',
      ''        author {'',
      ''          login'',
      ''        }'']\<close>

text \<open>\<open>gql_template.format(query=..., comments=..., base_elements=...)\<close>: the doubled
  braces of the template are single braces of the document.\<close>

definition gql_template :: "string \<Rightarrow> string \<Rightarrow> string \<Rightarrow> string" where
  \<open>gql_template search_args comments base = unlines
     [''{'',
      ''  search('' @ search_args @ '') {'',
      ''    issueCount'',
      ''    pageInfo {'',
      ''        endCursor'',
      ''        hasNextPage'',
      ''    }'',
      ''    nodes {'',
      ''      ... on PullRequest {'',
      ''        '' @ base,
      ''        mergedBy {'',
      ''          login'',
      ''        }'',
      ''        mergeCommit {'',
      ''          oid'',
      ''        }'',
      ''        '' @ comments,
      ''      }'',
      ''      ... on Issue {'',
      ''        '' @ base,
      ''        '' @ comments,
      ''      }'',
      ''    }'',
      ''  }'',
      ''}'']\<close>

subsection \<open>Replies and the state of a call\<close>

record page_info =
  endCursor :: "string option"
  hasNextPage :: bool

record search =
  issueCount :: int
  pageInfo :: page_info
  nodes :: "raw_record list"

text \<open>
  A reply: its HTTP status, the value under the key \<open>errors\<close> of the decoded body when the
  key is there (as the text Python prints for it), and the value under \<open>data\<close>, \<open>search\<close>.
\<close>

record response =
  status_code :: int
  errors :: "string option"
  data_search :: "search option"

type_synonym server = "nat \<Rightarrow> string \<Rightarrow> response"

text \<open>
  The attributes of the query object (\<open>query\<close> to \<open>last_query\<close>; an attribute not yet
  assigned is \<open>None\<close>), the local variable \<open>n_pages\<close>, and what the call did to the world:
  the documents it posted and the lines it printed, in order.
\<close>

record state =
  query :: string
  headers :: "(string \<times> string) list"
  issues_and_or_prs :: "raw_record list"
  data :: "data_frame option"
  last_request :: "response option"
  last_query :: "string option"
  n_pages :: int
  posted :: "string list"
  stdout :: "string list"

text \<open>\<open>__init__\<close>, with the value of the environment variable \<open>GITHUB_ACCESS_TOKEN\<close>.\<close>

definition init :: "string \<Rightarrow> string option \<Rightarrow> string option \<Rightarrow> state" where
  "init q auth environ =
     (let auth' = (case auth of None \<Rightarrow> environ | Some a \<Rightarrow> Some a)
      in \<lparr>query = q,
          headers = (case auth' of None \<Rightarrow> [] | Some a \<Rightarrow> [(''Authorization'', ''Bearer '' @ a)]),
          issues_and_or_prs = [], data = None, last_request = None, last_query = None,
          n_pages = 0, posted = [], stdout = []\<rparr>)"

subsection \<open>One pass of the loop (lines 117 to 166)\<close>

text \<open>\<open>'%s' % c\<close> for the cursor: the string itself, or the text \<open>None\<close> for \<open>None\<close>.\<close>

definition str_cursor :: "string option \<Rightarrow> string" where
  "str_cursor c = (case c of None \<Rightarrow> ''None'' | Some t \<Rightarrow> t)"

text \<open>Lines 117 to 123. The local \<open>pageInfo\<close> is bound from the first pass on.\<close>

definition github_search_query :: "string \<Rightarrow> int \<Rightarrow> nat \<Rightarrow> page_info option \<Rightarrow> error + string list" where
  \<open>github_search_query q n_per_page ii prev =
     (let args = [''first: '' @ str_int n_per_page, ''query: "'' @ q @ ''"'', ''type: ISSUE'']
      in if ii \<noteq> 0
         then (case prev of
                 None \<Rightarrow> Inl UnboundLocalError
               | Some p \<Rightarrow> Inr (args @ [''after: "'' @ str_cursor (endCursor p) @ ''"'']))
         else Inr args)\<close>

text \<open>Lines 125 to 129.\<close>

definition ii_gql_query :: "string \<Rightarrow> int \<Rightarrow> nat \<Rightarrow> page_info option \<Rightarrow> error + string" where
  "ii_gql_query q n_per_page ii prev =
     and_then (github_search_query q n_per_page ii prev)
       (\<lambda>args. Inr (gql_template (join '', '' args) comments_query base_elements))"

text \<open>The two messages of lines 132 and 134.\<close>

definition status_message :: "int \<Rightarrow> string \<Rightarrow> string" where
  "status_message code doc =
     ''Query failed to run by returning code of '' @ str_int code @ ''. '' @ doc"

definition errors_message :: "string \<Rightarrow> string \<Rightarrow> string" where
  "errors_message errs doc = ''Query failed to run with error '' @ errs @ ''. '' @ doc"

text \<open>Lines 130 to 138: post the document, check the reply, read \<open>data\<close>, \<open>search\<close>.\<close>

definition fetch :: "server \<Rightarrow> nat \<Rightarrow> string \<Rightarrow> state \<Rightarrow> (error + search) \<times> state" where
  "fetch srv ii doc s =
     (let ii_request = srv ii doc;
          s1 = s\<lparr>posted := posted s @ [doc]\<rparr>
      in if status_code ii_request \<noteq> 200
         then (Inl (Exception (status_message (status_code ii_request) doc)), s1)
         else (case errors ii_request of
                 Some errs \<Rightarrow> (Inl (Exception (errors_message errs doc)), s1)
               | None \<Rightarrow>
                   (let s2 = s1\<lparr>last_request := Some ii_request\<rparr>
                    in case data_search ii_request of
                         None \<Rightarrow> (Inl (KeyError ''data''), s2)
                       | Some json \<Rightarrow> (Inr json, s2))))"

text \<open>How a pass leaves the loop body.\<close>

datatype flow = Next page_info | Break | Return

text \<open>
  Lines 139 to 155, for \<open>ii = 0\<close>: \<open>True\<close> is the early \<open>return\<close>. After the count is printed,
  \<open>widgets.IntProgress(value=0, min=0, max=n_pages)\<close> raises \<open>TraitError\<close> when the computed
  \<open>n_pages\<close> is negative.
\<close>

definition first_page :: "int \<Rightarrow> search \<Rightarrow> state \<Rightarrow> (error + bool) \<times> state" where
  "first_page n_per_page json s =
     (if issueCount json = 0
      then (Inr True, s\<lparr>data := Some empty_frame,
                         stdout := stdout s @ [''Found no entries for query.'']\<rparr>)
      else (case expected_pages (issueCount json) n_per_page of
              Inl e \<Rightarrow> (Inl e, s)
            | Inr n \<Rightarrow>
                (let s1 = s\<lparr>n_pages := n,
                             stdout := stdout s @
                               [''Found '' @ str_int (issueCount json) @
                                '' items, which will take '' @ str_int n @ '' pages'']\<rparr>
                 in if n < 0 then (Inl TraitError, s1) else (Inr False, s1))))"

text \<open>Lines 157 to 166.\<close>

definition collect :: "string \<Rightarrow> search \<Rightarrow> state \<Rightarrow> flow \<times> state" where
  "collect doc json s =
     (let s1 = s\<lparr>issues_and_or_prs := issues_and_or_prs s @ nodes json,
                 last_query := Some doc\<rparr>
      in if hasNextPage (pageInfo json) = False then (Break, s1)
         else (Next (pageInfo json), s1))"

definition pass :: "server \<Rightarrow> int \<Rightarrow> nat \<Rightarrow> page_info option \<Rightarrow> state \<Rightarrow> (error + flow) \<times> state" where
  "pass srv n_per_page ii prev s =
     (case ii_gql_query (query s) n_per_page ii prev of
        Inl e \<Rightarrow> (Inl e, s)
      | Inr doc \<Rightarrow>
          (case fetch srv ii doc s of
             (Inl e, s1) \<Rightarrow> (Inl e, s1)
           | (Inr json, s1) \<Rightarrow>
               (if ii = 0
                then (case first_page n_per_page json s1 of
                        (Inl e, s2) \<Rightarrow> (Inl e, s2)
                      | (Inr True, s2) \<Rightarrow> (Inr Return, s2)
                      | (Inr False, s2) \<Rightarrow> (case collect doc json s2 of (f, s3) \<Rightarrow> (Inr f, s3)))
                else (case collect doc json s1 of (f, s3) \<Rightarrow> (Inr f, s3)))))"

subsection \<open>The loop (line 116) and the table (lines 169 to 174)\<close>

text \<open>
  \<open>for ii in range(n_pages)\<close>: the range is evaluated once, so rebinding \<open>n_pages\<close> on the
  first page does not change the number of passes. \<open>loop srv n_per_page ii k prev s\<close> runs the
  passes \<open>ii\<close>, ..., \<open>ii + k - 1\<close>.
\<close>

datatype loop_end = Exhausted | Broke | Returned

fun loop :: "server \<Rightarrow> int \<Rightarrow> nat \<Rightarrow> nat \<Rightarrow> page_info option \<Rightarrow> state \<Rightarrow> (error + loop_end) \<times> state" where
  "loop srv n_per_page ii 0 prev s = (Inr Exhausted, s)"
| "loop srv n_per_page ii (Suc k) prev s =
     (case pass srv n_per_page ii prev s of
        (Inl e, s1) \<Rightarrow> (Inl e, s1)
      | (Inr Return, s1) \<Rightarrow> (Inr Returned, s1)
      | (Inr Break, s1) \<Rightarrow> (Inr Broke, s1)
      | (Inr (Next p), s1) \<Rightarrow> loop srv n_per_page (Suc ii) k (Some p) s1)"

text \<open>\<open>self.data[target] = self.data[source].map(f)\<close>.\<close>

definition assign_mapped :: "string \<Rightarrow> string \<Rightarrow> (cell \<Rightarrow> error + cell) \<Rightarrow> data_frame \<Rightarrow> error + data_frame" where
  "assign_mapped target source f df =
     and_then (get_column df source)
       (\<lambda>col. and_then (series_map f col) (\<lambda>vs. Inr (set_column df target vs)))"

text \<open>Lines 172 to 174 on a frame.\<close>

definition add_fields :: "data_frame \<Rightarrow> error + data_frame" where
  "add_fields df =
     and_then (assign_mapped ''author'' ''author'' author_login df)
       (\<lambda>df1. and_then (assign_mapped ''org'' ''url'' (url_segment 3) df1)
          (\<lambda>df2. assign_mapped ''repo'' ''url'' (url_segment 4) df2))"

text \<open>Lines 169 to 174 on the state: \<open>self.data\<close> is assigned four times, and an exception
  leaves the frame as the last assignment made it.\<close>

definition finalize :: "state \<Rightarrow> (error + unit) \<times> state" where
  "finalize s =
     (let df = DataFrame (issues_and_or_prs s); s0 = s\<lparr>data := Some df\<rparr>
      in case assign_mapped ''author'' ''author'' author_login df of
           Inl e \<Rightarrow> (Inl e, s0)
         | Inr df1 \<Rightarrow>
             (let s1 = s0\<lparr>data := Some df1\<rparr>
              in case assign_mapped ''org'' ''url'' (url_segment 3) df1 of
                   Inl e \<Rightarrow> (Inl e, s1)
                 | Inr df2 \<Rightarrow>
                     (let s2 = s1\<lparr>data := Some df2\<rparr>
                      in case assign_mapped ''repo'' ''url'' (url_segment 4) df2 of
                           Inl e \<Rightarrow> (Inl e, s2)
                         | Inr df3 \<Rightarrow> (Inr (), s2\<lparr>data := Some df3\<rparr>))))"

text \<open>\<open>request(n_pages, n_per_page)\<close>; a negative \<open>n_pages\<close> gives an empty range.\<close>

definition request :: "server \<Rightarrow> int \<Rightarrow> int \<Rightarrow> state \<Rightarrow> (error + unit) \<times> state" where
  "request srv n_pages_arg n_per_page s =
     (case loop srv n_per_page 0 (nat n_pages_arg) None
             (s\<lparr>issues_and_or_prs := [], n_pages := n_pages_arg\<rparr>) of
        (Inl e, s1) \<Rightarrow> (Inl e, s1)
      | (Inr Returned, s1) \<Rightarrow> (Inr (), s1)
      | (Inr _, s1) \<Rightarrow> finalize s1)"

section \<open>Auxiliary notions for the properties\<close>

text \<open>A frame in which every row has one cell per column.\<close>

definition well_formed :: "data_frame \<Rightarrow> bool" where
  "well_formed df \<longleftrightarrow> (\<forall>row \<in> set (rows df). length row = length (columns df))"

text \<open>
  Records as the query asks for them: \<open>author\<close> is null or an object with a \<open>login\<close>, and
  \<open>url\<close> is a string with at least five pieces between slashes.
\<close>

definition author_ok :: "raw_record \<Rightarrow> bool" where
  "author_ok r =
     (case map_of r ''author'' of
        Some JNull \<Rightarrow> True
      | Some (JObj kvs) \<Rightarrow> map_of kvs ''login'' \<noteq> None
      | _ \<Rightarrow> False)"

definition url_ok :: "raw_record \<Rightarrow> bool" where
  "url_ok r =
     (case map_of r ''url'' of
        Some (JStr u) \<Rightarrow> 5 \<le> length (split CHR ''/'' u)
      | _ \<Rightarrow> False)"

text \<open>The records of the pages that answer the documents \<open>ds\<close>, posted from pass \<open>ii\<close> on.\<close>

fun pages_nodes :: "server \<Rightarrow> nat \<Rightarrow> string list \<Rightarrow> raw_record list" where
  "pages_nodes srv ii [] = []"
| "pages_nodes srv ii (d # ds) =
     (case data_search (srv ii d) of None \<Rightarrow> [] | Some json \<Rightarrow> nodes json) @
     pages_nodes srv (Suc ii) ds"

text \<open>A reply that passes the checks of lines 131 to 138 and carries the page \<open>json\<close>.\<close>

definition is_page :: "response \<Rightarrow> search \<Rightarrow> bool" where
  "is_page r json \<longleftrightarrow> status_code r = 200 \<and> errors r = None \<and> data_search r = Some json"

text \<open>
  The documents \<open>ds\<close> posted from pass \<open>ii\<close> on, with the outcome \<open>out\<close> of the loop: a page
  without a next page can only answer the last document, and then the loop has ended by
  the early return (first page, count 0) or by \<open>break\<close> with the page's records collected.
\<close>

definition last_page_seen ::
  "server \<Rightarrow> int \<Rightarrow> nat \<Rightarrow> string list \<Rightarrow> (error + loop_end) \<times> state \<Rightarrow> bool" where
  "last_page_seen srv n_per_page ii ds out \<longleftrightarrow>
     (\<forall>k<length ds. \<forall>json. is_page (srv (ii + k) (ds ! k)) json \<and> \<not> hasNextPage (pageInfo json) \<longrightarrow>
        length ds = Suc k
        \<and> (ii + k = 0 \<and> issueCount json = 0 \<longrightarrow>
             fst out = Inr Returned \<and> data (snd out) = Some empty_frame)
        \<and> ((ii + k = 0 \<longrightarrow> issueCount json \<noteq> 0
               \<and> (\<exists>m\<ge>0. expected_pages (issueCount json) n_per_page = Inr m)) \<longrightarrow>
             fst out = Inr Broke \<and> (\<exists>pre. issues_and_or_prs (snd out) = pre @ nodes json)))"

section \<open>Example inputs\<close>

text \<open>A query object as \<open>__init__\<close> leaves it, and replies of the kinds the properties are
  about.\<close>

definition fresh :: state where
  "fresh = init ''is:open'' None None"

definition page :: "int \<Rightarrow> string option \<Rightarrow> bool \<Rightarrow> raw_record list \<Rightarrow> response" where
  "page n c h rs =
     \<lparr>status_code = 200, errors = None,
      data_search = Some \<lparr>issueCount = n, pageInfo = \<lparr>endCursor = c, hasNextPage = h\<rparr>, nodes = rs\<rparr>\<rparr>"

definition no_hits :: server where
  "no_hits k d = page 0 None False []"

text \<open>Records: an issue by \<open>alice\<close>, a pull request whose author's account is gone, and a
  record whose url is too short.\<close>

definition alice_issue :: raw_record where
  "alice_issue =
     [(''title'', JStr ''A bug''),
      (''url'', JStr ''https://github.com/ORG/REPO/issues/1''),
      (''author'', JObj [(''login'', JStr ''alice'')])]"

definition ghost_pull :: raw_record where
  "ghost_pull =
     [(''title'', JStr ''A fix''),
      (''url'', JStr ''https://github.com/ORG/REPO/pull/2''),
      (''author'', JNull),
      (''mergedBy'', JNull)]"

definition short_url_issue :: raw_record where
  "short_url_issue = [(''url'', JStr ''https://github.com/ORG''), (''author'', JNull)]"

text \<open>Servers: one whose only page counts one item and lists none, one that always has a
  next page, one with two pages, and one
  whose pages announce a next page but give no cursor.\<close>

definition hollow_page :: server where
  "hollow_page k d = page 1 None False []"

definition endless :: server where
  "endless k d = page 2 (Some ''Y3Vyc29yOjE='') True [alice_issue]"

definition two_pages :: server where
  "two_pages k d =
     (if k = 0 then page 2 None True [alice_issue] else page 2 (Some ''Y3Vyc29yOjI='') False [ghost_pull])"


text \<open>More servers and records: a first page that counts no item yet lists one, a page
  whose only record has a short url, a record with a short url and a string as author, and
  a record whose url has two pieces.\<close>

definition miscounted :: server where
  "miscounted k d = page 0 None False [alice_issue]"

definition short_url_page :: server where
  "short_url_page k d = page 1 None False [short_url_issue]"

definition short_url_text_author :: raw_record where
  "short_url_text_author = [(''url'', JStr ''https://github.com/ORG''), (''author'', JStr ''alice'')]"

definition bare_url_issue :: raw_record where
  "bare_url_issue = [(''url'', JStr ''ORG/REPO''), (''author'', JNull)]"

section \<open>Properties\<close>

subsection \<open>Frames\<close>

lemma position_None: "c \<notin> set cs \<Longrightarrow> position c cs = None"
  by (induction cs) auto

lemma position_Some: "c \<in> set cs \<Longrightarrow> \<exists>i. position c cs = Some i \<and> i < length cs"
  by (induction cs) auto

lemma position_less: "position c cs = Some i \<Longrightarrow> i < length cs"
  by (induction cs arbitrary: i) (auto split: if_splits)

lemma position_append:
  "position c (cs @ [d]) =
     (case position c cs of Some i \<Rightarrow> Some i | None \<Rightarrow> if d = c then Some (length cs) else None)"
  by (induction cs) (auto split: option.splits)

lemma and_then_Inr [simp]: "and_then (Inr x) f = f x"
  by (simp add: and_then_def)

lemma and_then_Inl [simp]: "and_then (Inl e) f = Inl e"
  by (simp add: and_then_def)

lemma and_then_eq_Inr: "and_then r f = Inr y \<longleftrightarrow> (\<exists>x. r = Inr x \<and> f x = Inr y)"
  by (cases r) auto

lemma well_formed_DataFrame: "well_formed (DataFrame rs)"
  by (simp add: well_formed_def DataFrame_def Let_def)

lemma rows_DataFrame: "length (rows (DataFrame rs)) = length rs"
  by (simp add: DataFrame_def Let_def)

lemma set_columns_DataFrame: "set (columns (DataFrame rs)) = (\<Union>r \<in> set rs. fst ` set r)"
  by (auto simp add: DataFrame_def Let_def)

lemma distinct_columns_DataFrame: "distinct (columns (DataFrame rs))"
  by (simp add: DataFrame_def Let_def)

lemma position_nth: "position c cs = Some i \<Longrightarrow> cs ! i = c"
  by (induction cs arbitrary: i) (auto split: if_splits)

lemma get_column_DataFrame:
  assumes "r \<in> set rs" and "map_of r c = Some v"
  shows "get_column (DataFrame rs) c = Inr (map (\<lambda>r. cell_of r c) rs)"
proof -
  from assms have "c \<in> set (columns (DataFrame rs))"
    by (auto simp add: set_columns_DataFrame dest!: map_of_SomeD intro!: bexI [of _ r] image_eqI [of _ _ "(c, v)"])
  then obtain i where i: "position c (columns (DataFrame rs)) = Some i" "i < length (columns (DataFrame rs))"
    using position_Some by blast
  then have "columns (DataFrame rs) ! i = c"
    by (simp add: position_nth)
  with i show ?thesis
    by (simp add: get_column_def) (simp add: DataFrame_def Let_def)
qed

lemma get_column_empty: "get_column (DataFrame []) c = Inl (KeyError c)"
  by (simp add: get_column_def DataFrame_def)

lemma well_formed_set_column:
  "well_formed df \<Longrightarrow> well_formed (set_column df c vs)"
  by (auto simp add: well_formed_def set_column_def split: option.splits dest!: set_zip_leftD)

lemma rows_set_column:
  "length vs = length (rows df) \<Longrightarrow> length (rows (set_column df c vs)) = length (rows df)"
  by (simp add: set_column_def split: option.splits)

lemma map_zip_nth_upd:
  "length vs = length rws \<Longrightarrow> \<forall>row \<in> set rws. i < length row \<Longrightarrow>
     map (\<lambda>row. row ! i) (map (\<lambda>(row, v). row[i := v]) (zip rws vs)) = vs"
  by (induction rws vs rule: list_induct2') auto

lemma map_zip_nth_snoc:
  "length vs = length rws \<Longrightarrow> \<forall>row \<in> set rws. length row = n \<Longrightarrow>
     map (\<lambda>row. row ! n) (map (\<lambda>(row, v). row @ [v]) (zip rws vs)) = vs"
  by (induction rws vs rule: list_induct2') auto

lemma get_column_set_column_same:
  assumes "well_formed df" and "length vs = length (rows df)"
  shows "get_column (set_column df c vs) c = Inr vs"
proof (cases "position c (columns df)")
  case None
  with assms show ?thesis
    by (simp add: get_column_def set_column_def position_append well_formed_def map_zip_nth_snoc
        del: map_map)
next
  case (Some i)
  then have "i < length (columns df)"
    by (rule position_less)
  with Some assms show ?thesis
    by (simp add: get_column_def set_column_def well_formed_def map_zip_nth_upd del: map_map)
qed

lemma map_zip_nth_upd_other:
  "length vs = length rws \<Longrightarrow> i \<noteq> k \<Longrightarrow>
     map (\<lambda>row. row ! k) (map (\<lambda>(row, v). row[i := v]) (zip rws vs)) = map (\<lambda>row. row ! k) rws"
  by (induction rws vs rule: list_induct2') auto

lemma map_zip_nth_snoc_other:
  "length vs = length rws \<Longrightarrow> \<forall>row \<in> set rws. k < length row \<Longrightarrow>
     map (\<lambda>row. row ! k) (map (\<lambda>(row, v). row @ [v]) (zip rws vs)) = map (\<lambda>row. row ! k) rws"
  by (induction rws vs rule: list_induct2') (auto simp add: nth_append)

lemma position_inj: "position c cs = Some i \<Longrightarrow> position d cs = Some i \<Longrightarrow> c = d"
  by (induction cs arbitrary: i) (auto split: if_splits)

lemma get_column_set_column_other:
  assumes "well_formed df" and "length vs = length (rows df)" and "c' \<noteq> c"
  shows "get_column (set_column df c vs) c' = get_column df c'"
proof (cases "position c (columns df)")
  case None
  show ?thesis
  proof (cases "position c' (columns df)")
    case n: None
    with None assms show ?thesis
      by (simp add: get_column_def set_column_def position_append)
  next
    case (Some k)
    then have "k < length (columns df)"
      by (rule position_less)
    with None Some assms show ?thesis
      by (simp add: get_column_def set_column_def position_append well_formed_def
          map_zip_nth_snoc_other del: map_map)
  qed
next
  case (Some i)
  show ?thesis
  proof (cases "position c' (columns df)")
    case None
    with Some assms show ?thesis
      by (simp add: get_column_def set_column_def)
  next
    case k: (Some k)
    with Some assms(3) have "i \<noteq> k"
      using position_inj by blast
    with Some k assms show ?thesis
      by (simp add: get_column_def set_column_def map_zip_nth_upd_other del: map_map)
  qed
qed


subsection \<open>Building the table\<close>

lemma series_map_Inr:
  "\<forall>x \<in> set xs. \<exists>y. f x = Inr y \<Longrightarrow> series_map f xs = Inr (map (\<lambda>x. projr (f x)) xs)"
  by (induction xs) auto

lemma series_map_length: "series_map f xs = Inr ys \<Longrightarrow> length ys = length xs"
  by (induction xs arbitrary: ys) (auto simp add: and_then_eq_Inr)

lemma series_map_nth:
  "series_map f xs = Inr ys \<Longrightarrow> i < length xs \<Longrightarrow> f (xs ! i) = Inr (ys ! i)"
  by (induction xs arbitrary: ys i) (auto simp add: and_then_eq_Inr nth_Cons split: nat.splits)

lemma assign_mapped_Inr:
  assumes "assign_mapped target source f df = Inr df'" and "well_formed df"
  shows "\<exists>col vs. get_column df source = Inr col \<and> series_map f col = Inr vs
           \<and> length col = length (rows df)
           \<and> df' = set_column df target vs \<and> well_formed df'
           \<and> length (rows df') = length (rows df)
           \<and> get_column df' target = Inr vs
           \<and> (\<forall>c. c \<noteq> target \<longrightarrow> get_column df' c = get_column df c)"
proof -
  from assms(1) obtain col vs where c: "get_column df source = Inr col"
    and v: "series_map f col = Inr vs" and d: "df' = set_column df target vs"
    by (auto simp add: assign_mapped_def and_then_eq_Inr)
  from c have lc: "length col = length (rows df)"
    by (auto simp add: get_column_def split: option.splits)
  with v have lv: "length vs = length (rows df)"
    by (simp add: series_map_length)
  with c v d lc assms(2) show ?thesis
    by (simp add: well_formed_set_column rows_set_column get_column_set_column_same
        get_column_set_column_other)
qed

lemma finalize_add_fields:
  "fst (finalize s) = (case add_fields (DataFrame (issues_and_or_prs s)) of Inl e \<Rightarrow> Inl e | Inr df \<Rightarrow> Inr ())"
  by (simp add: finalize_def add_fields_def Let_def split: sum.splits)

lemma finalize_data:
  "add_fields (DataFrame (issues_and_or_prs s)) = Inr df \<Longrightarrow>
     finalize s = (Inr (), s\<lparr>data := Some df\<rparr>)"
  by (auto simp add: finalize_def add_fields_def Let_def and_then_eq_Inr split: sum.splits)

lemma author_login_ok:
  "author_ok r \<Longrightarrow> \<exists>y. author_login (cell_of r ''author'') = Inr y"
  by (auto simp add: author_ok_def cell_of_def split: option.splits json.splits)

lemma url_segment_ok:
  "url_ok r \<Longrightarrow> k < 5 \<Longrightarrow> \<exists>y. url_segment k (cell_of r ''url'') = Inr y"
  by (auto simp add: url_ok_def cell_of_def index_def split: option.splits json.splits)

lemma author_ok_key: "author_ok r \<Longrightarrow> \<exists>v. map_of r ''author'' = Some v"
  by (auto simp add: author_ok_def split: option.splits)

lemma url_ok_key: "url_ok r \<Longrightarrow> \<exists>v. map_of r ''url'' = Some v"
  by (auto simp add: url_ok_def split: option.splits)

lemma add_fields_ok:
  assumes ok: "\<forall>r \<in> set rs. author_ok r \<and> url_ok r" and ne: "rs \<noteq> []"
  shows "\<exists>df. add_fields (DataFrame rs) = Inr df
           \<and> get_column df ''author'' = Inr (map (\<lambda>r. projr (author_login (cell_of r ''author''))) rs)
           \<and> get_column df ''org'' = Inr (map (\<lambda>r. projr (url_segment 3 (cell_of r ''url''))) rs)
           \<and> get_column df ''repo'' = Inr (map (\<lambda>r. projr (url_segment 4 (cell_of r ''url''))) rs)
           \<and> get_column df ''url'' = Inr (map (\<lambda>r. cell_of r ''url'') rs)"
proof -
  let ?df = "DataFrame rs"
  let ?a = "map (\<lambda>r. cell_of r ''author'') rs"
  let ?u = "map (\<lambda>r. cell_of r ''url'') rs"
  let ?a' = "map (\<lambda>r. projr (author_login (cell_of r ''author''))) rs"
  let ?o = "map (\<lambda>r. projr (url_segment 3 (cell_of r ''url''))) rs"
  let ?p = "map (\<lambda>r. projr (url_segment 4 (cell_of r ''url''))) rs"
  from ne obtain r where r: "r \<in> set rs"
    by (cases rs) auto
  with ok have "author_ok r" "url_ok r"
    by auto
  then obtain va vu where "map_of r ''author'' = Some va" "map_of r ''url'' = Some vu"
    using author_ok_key url_ok_key by blast
  with r have ga: "get_column ?df ''author'' = Inr ?a" and gu: "get_column ?df ''url'' = Inr ?u"
    by (auto simp add: get_column_DataFrame)
  have wf: "well_formed ?df"
    by (rule well_formed_DataFrame)
  have len: "length (rows ?df) = length rs"
    by (rule rows_DataFrame)
  from ok have ma: "series_map author_login ?a = Inr ?a'"
    using series_map_Inr [of ?a author_login] author_login_ok by (auto simp add: comp_def)
  from ok have mo: "series_map (url_segment 3) ?u = Inr ?o"
    using series_map_Inr [of ?u "url_segment 3"] url_segment_ok [where k = 3]
    by (auto simp add: comp_def)
  from ok have mp: "series_map (url_segment 4) ?u = Inr ?p"
    using series_map_Inr [of ?u "url_segment 4"] url_segment_ok [where k = 4]
    by (auto simp add: comp_def)
  let ?df1 = "set_column ?df ''author'' ?a'"
  let ?df2 = "set_column ?df1 ''org'' ?o"
  let ?df3 = "set_column ?df2 ''repo'' ?p"
  have s1: "assign_mapped ''author'' ''author'' author_login ?df = Inr ?df1"
    by (simp add: assign_mapped_def ga ma)
  have wf1: "well_formed ?df1" and len1: "length (rows ?df1) = length rs"
    using wf len by (simp_all add: well_formed_set_column rows_set_column)
  have gu1: "get_column ?df1 ''url'' = Inr ?u"
    using wf len gu by (simp add: get_column_set_column_other)
  have ga1: "get_column ?df1 ''author'' = Inr ?a'"
    using wf len by (simp add: get_column_set_column_same)
  have s2: "assign_mapped ''org'' ''url'' (url_segment 3) ?df1 = Inr ?df2"
    by (simp add: assign_mapped_def gu1 mo)
  have wf2: "well_formed ?df2" and len2: "length (rows ?df2) = length rs"
    using wf1 len1 by (simp_all add: well_formed_set_column rows_set_column)
  have gu2: "get_column ?df2 ''url'' = Inr ?u"
    using wf1 len1 gu1 by (simp add: get_column_set_column_other)
  have ga2: "get_column ?df2 ''author'' = Inr ?a'"
    using wf1 len1 ga1 by (simp add: get_column_set_column_other)
  have go2: "get_column ?df2 ''org'' = Inr ?o"
    using wf1 len1 by (simp add: get_column_set_column_same)
  have s3: "assign_mapped ''repo'' ''url'' (url_segment 4) ?df2 = Inr ?df3"
    by (simp add: assign_mapped_def gu2 mp)
  have gu3: "get_column ?df3 ''url'' = Inr ?u"
    using wf2 len2 gu2 by (simp add: get_column_set_column_other)
  have ga3: "get_column ?df3 ''author'' = Inr ?a'"
    using wf2 len2 ga2 by (simp add: get_column_set_column_other)
  have go3: "get_column ?df3 ''org'' = Inr ?o"
    using wf2 len2 go2 by (simp add: get_column_set_column_other)
  have gp3: "get_column ?df3 ''repo'' = Inr ?p"
    using wf2 len2 by (simp add: get_column_set_column_same)
  have "add_fields ?df = Inr ?df3"
    by (simp add: add_fields_def s1 s2 s3)
  with ga3 go3 gp3 gu3 show ?thesis
    by blast
qed

lemma series_map_member:
  "series_map f xs = Inr ys \<Longrightarrow> x \<in> set xs \<Longrightarrow> \<exists>y. f x = Inr y"
  by (induction xs arbitrary: ys) (auto simp add: and_then_eq_Inr)

lemma series_map_error:
  "series_map f xs = Inl e \<Longrightarrow> \<exists>x \<in> set xs. f x = Inl e"
  by (induction xs) (auto simp add: and_then_def split: sum.splits)

lemma url_segment_error:
  "url_segment k (Val (JStr u)) = Inl e \<Longrightarrow> e = IndexError"
  by (auto simp add: index_def and_then_def split: if_splits)

lemma short_url_no_table:
  assumes r: "r \<in> set rs" and u: "map_of r ''url'' = Some (JStr u)"
    and short: "length (split CHR ''/'' u) < 5"
  shows "add_fields (DataFrame rs) \<noteq> Inr df"
proof
  assume "add_fields (DataFrame rs) = Inr df"
  then obtain df1 df2 where s1: "assign_mapped ''author'' ''author'' author_login (DataFrame rs) = Inr df1"
    and s2: "assign_mapped ''org'' ''url'' (url_segment 3) df1 = Inr df2"
    and s3: "assign_mapped ''repo'' ''url'' (url_segment 4) df2 = Inr df"
    by (auto simp add: add_fields_def and_then_eq_Inr)
  from assign_mapped_Inr [OF s1 well_formed_DataFrame]
  have wf1: "well_formed df1" and g1: "get_column df1 ''url'' = get_column (DataFrame rs) ''url''"
    by auto
  from assign_mapped_Inr [OF s2 wf1]
  have wf2: "well_formed df2" and g2: "get_column df2 ''url'' = get_column df1 ''url''"
    by auto
  from assign_mapped_Inr [OF s3 wf2] obtain vs
    where "series_map (url_segment 4) (map (\<lambda>r. cell_of r ''url'') rs) = Inr vs"
    using g1 g2 get_column_DataFrame [OF r u] by auto
  moreover have "cell_of r ''url'' \<in> set (map (\<lambda>r. cell_of r ''url'') rs)"
    using r by simp
  ultimately obtain y where "url_segment 4 (cell_of r ''url'') = Inr y"
    using series_map_member by blast
  with u short show False
    by (simp add: cell_of_def index_def)
qed

lemma string_urls_IndexError:
  assumes ok: "\<forall>r \<in> set rs. author_ok r \<and> (\<exists>v. map_of r ''url'' = Some (JStr v))"
    and e: "add_fields (DataFrame rs) = Inl e" and ne: "rs \<noteq> []"
  shows "e = IndexError"
proof -
  let ?df = "DataFrame rs"
  let ?a = "map (\<lambda>r. cell_of r ''author'') rs"
  let ?u = "map (\<lambda>r. cell_of r ''url'') rs"
  let ?a' = "map (\<lambda>r. projr (author_login (cell_of r ''author''))) rs"
  from ne obtain r where r: "r \<in> set rs"
    by (cases rs) auto
  with ok obtain va vu where "map_of r ''author'' = Some va" "map_of r ''url'' = Some vu"
    using author_ok_key by blast
  with r have ga: "get_column ?df ''author'' = Inr ?a" and gu: "get_column ?df ''url'' = Inr ?u"
    by (auto simp add: get_column_DataFrame)
  from ok have ma: "series_map author_login ?a = Inr ?a'"
    using series_map_Inr [of ?a author_login] author_login_ok by (auto simp add: comp_def)
  let ?df1 = "set_column ?df ''author'' ?a'"
  have s1: "assign_mapped ''author'' ''author'' author_login ?df = Inr ?df1"
    by (simp add: assign_mapped_def ga ma)
  have wf1: "well_formed ?df1" and gu1: "get_column ?df1 ''url'' = Inr ?u"
    using assign_mapped_Inr [OF s1 well_formed_DataFrame] gu by auto
  have strings: "\<And>x k e'. x \<in> set ?u \<Longrightarrow> url_segment k x = Inl e' \<Longrightarrow> e' = IndexError"
    using ok url_segment_error by (auto simp add: cell_of_def)
  show ?thesis
  proof (cases "series_map (url_segment 3) ?u")
    case (Inl e3)
    with e s1 gu1 have "e = e3"
      by (simp add: add_fields_def assign_mapped_def)
    with Inl strings series_map_error show ?thesis
      by blast
  next
    case (Inr os)
    let ?df2 = "set_column ?df1 ''org'' os"
    have s2: "assign_mapped ''org'' ''url'' (url_segment 3) ?df1 = Inr ?df2"
      by (simp add: assign_mapped_def gu1 Inr)
    have gu2: "get_column ?df2 ''url'' = Inr ?u"
      using assign_mapped_Inr [OF s2 wf1] gu1 by auto
    from e s1 s2 gu2 obtain e4 where "series_map (url_segment 4) ?u = Inl e4" "e = e4"
      by (cases "series_map (url_segment 4) ?u") (auto simp add: add_fields_def assign_mapped_def)
    with strings series_map_error show ?thesis
      by blast
  qed
qed

subsection \<open>The derived fields\<close>

lemma split_issue_url:
  "split CHR ''/'' ''https://github.com/ORG/REPO/issues/1'' =
     [''https:'', [], ''github.com'', ''ORG'', ''REPO'', ''issues'', ''1'']"
  by simp

lemma examples_ok:
  "author_ok alice_issue" "url_ok alice_issue" "author_ok ghost_pull" "url_ok ghost_pull"
  by (simp_all add: author_ok_def url_ok_def alice_issue_def ghost_pull_def)

text \<open>
  C6. In a table whose records all have an author that is null or has a login and a url of
  at least five pieces, a record whose author is the object with login \<open>l\<close> and whose url,
  split at the slashes, has \<open>org\<close> as piece 3 and \<open>repo\<close> as piece 4 (counted from 0) gets
  \<open>l\<close> in the column \<open>author\<close>, \<open>org\<close> in the column \<open>org\<close> and \<open>repo\<close> in the column \<open>repo\<close>
  of its row, and building the table does not raise.
\<close>

theorem login_and_url_pieces:
  assumes "\<forall>r \<in> set (issues_and_or_prs s). author_ok r \<and> url_ok r"
    and "i < length (issues_and_or_prs s)"
    and "map_of (issues_and_or_prs s ! i) ''author'' = Some (JObj kvs)"
    and "map_of kvs ''login'' = Some l"
    and "map_of (issues_and_or_prs s ! i) ''url'' = Some (JStr u)"
    and "split CHR ''/'' u ! 3 = org"
    and "split CHR ''/'' u ! 4 = repo"
  shows "\<exists>df as os ps. finalize s = (Inr (), s\<lparr>data := Some df\<rparr>)
           \<and> get_column df ''author'' = Inr as \<and> as ! i = Val l
           \<and> get_column df ''org'' = Inr os \<and> os ! i = Val (JStr org)
           \<and> get_column df ''repo'' = Inr ps \<and> ps ! i = Val (JStr repo)"
proof -
  let ?rs = "issues_and_or_prs s"
  from assms(2) have ne: "?rs \<noteq> []" and mem: "?rs ! i \<in> set ?rs"
    by auto
  with assms(1) have "url_ok (?rs ! i)"
    by blast
  with assms(5) have len: "5 \<le> length (split CHR ''/'' u)"
    by (simp add: url_ok_def)
  from add_fields_ok [OF assms(1) ne] obtain df where df: "add_fields (DataFrame ?rs) = Inr df"
    and a: "get_column df ''author'' = Inr (map (\<lambda>r. projr (author_login (cell_of r ''author''))) ?rs)"
    and o: "get_column df ''org'' = Inr (map (\<lambda>r. projr (url_segment 3 (cell_of r ''url''))) ?rs)"
    and p: "get_column df ''repo'' = Inr (map (\<lambda>r. projr (url_segment 4 (cell_of r ''url''))) ?rs)"
    by blast
  have "finalize s = (Inr (), s\<lparr>data := Some df\<rparr>)"
    using df by (rule finalize_data)
  moreover have "map (\<lambda>r. projr (author_login (cell_of r ''author''))) ?rs ! i = Val l"
    using assms(2-4) by (simp add: cell_of_def)
  moreover have "map (\<lambda>r. projr (url_segment 3 (cell_of r ''url''))) ?rs ! i = Val (JStr org)"
    using assms(2,5,6) len by (simp add: cell_of_def index_def)
  moreover have "map (\<lambda>r. projr (url_segment 4 (cell_of r ''url''))) ?rs ! i = Val (JStr repo)"
    using assms(2,5,7) len by (simp add: cell_of_def index_def)
  ultimately show ?thesis
    using a o p by blast
qed

theorem login_and_url_pieces_witness:
  "\<exists>df as os ps.
     finalize (fresh\<lparr>issues_and_or_prs := [ghost_pull, alice_issue]\<rparr>) =
       (Inr (), fresh\<lparr>issues_and_or_prs := [ghost_pull, alice_issue], data := Some df\<rparr>)
     \<and> get_column df ''author'' = Inr as \<and> as ! 1 = Val (JStr ''alice'')
     \<and> get_column df ''org'' = Inr os \<and> os ! 1 = Val (JStr ''ORG'')
     \<and> get_column df ''repo'' = Inr ps \<and> ps ! 1 = Val (JStr ''REPO'')"
  using login_and_url_pieces [where s = "fresh\<lparr>issues_and_or_prs := [ghost_pull, alice_issue]\<rparr>"
      and i = 1 and kvs = "[(''login'', JStr ''alice'')]" and l = "JStr ''alice''"
      and u = "''https://github.com/ORG/REPO/issues/1''" and org = "''ORG''" and repo = "''REPO''"]
  by (simp add: examples_ok) (simp add: alice_issue_def)

text \<open>
  C7. In such a table a record whose author is null keeps null as its author: the lambda of
  line 172 returns \<open>None\<close> for it without raising, building the table does not raise, and
  the row of the record holds \<open>None\<close> in the column \<open>author\<close>.
\<close>

theorem null_author_stays_null:
  assumes "\<forall>r \<in> set (issues_and_or_prs s). author_ok r \<and> url_ok r"
    and "i < length (issues_and_or_prs s)"
    and "map_of (issues_and_or_prs s ! i) ''author'' = Some JNull"
  shows "author_login (cell_of (issues_and_or_prs s ! i) ''author'') = Inr (Val JNull)
         \<and> (\<exists>df as. finalize s = (Inr (), s\<lparr>data := Some df\<rparr>)
               \<and> get_column df ''author'' = Inr as \<and> as ! i = Val JNull)"
proof -
  let ?rs = "issues_and_or_prs s"
  from assms(2) have ne: "?rs \<noteq> []"
    by auto
  from add_fields_ok [OF assms(1) ne] obtain df where df: "add_fields (DataFrame ?rs) = Inr df"
    and a: "get_column df ''author'' = Inr (map (\<lambda>r. projr (author_login (cell_of r ''author''))) ?rs)"
    by blast
  have "finalize s = (Inr (), s\<lparr>data := Some df\<rparr>)"
    using df by (rule finalize_data)
  moreover have "map (\<lambda>r. projr (author_login (cell_of r ''author''))) ?rs ! i = Val JNull"
    using assms(2,3) by (simp add: cell_of_def)
  moreover have "author_login (cell_of (?rs ! i) ''author'') = Inr (Val JNull)"
    using assms(3) by (simp add: cell_of_def)
  ultimately show ?thesis
    using a by blast
qed

theorem null_author_stays_null_witness:
  "author_login (cell_of ghost_pull ''author'') = Inr (Val JNull)
   \<and> (\<exists>df as. finalize (fresh\<lparr>issues_and_or_prs := [ghost_pull, alice_issue]\<rparr>) =
         (Inr (), fresh\<lparr>issues_and_or_prs := [ghost_pull, alice_issue], data := Some df\<rparr>)
       \<and> get_column df ''author'' = Inr as \<and> as ! 0 = Val JNull)"
  using null_author_stays_null [where s = "fresh\<lparr>issues_and_or_prs := [ghost_pull, alice_issue]\<rparr>"
      and i = 0]
  by (simp add: examples_ok) (simp add: ghost_pull_def)

lemma author_login_error:
  "author_login x = Inl e \<Longrightarrow> e = TypeError \<or> e = KeyError ''login''"
  by (cases x rule: author_login.cases) (auto split: option.splits)

lemma url_segment_error_kinds:
  "url_segment k x = Inl e \<Longrightarrow> e = IndexError \<or> e = AttributeError"
  by (cases "(k, x)" rule: url_segment.cases) (auto simp add: index_def split: if_splits)

lemma assign_mapped_error:
  assumes "assign_mapped target source f df = Inl e"
  shows "get_column df source = Inl (KeyError source) \<and> e = KeyError source
         \<or> (\<exists>x. f x = Inl e)"
proof (cases "get_column df source")
  case (Inl e')
  with assms show ?thesis
    by (auto simp add: assign_mapped_def get_column_def split: option.splits)
next
  case (Inr col)
  with assms have "series_map f col = Inl e"
    by (cases "series_map f col") (auto simp add: assign_mapped_def)
  then show ?thesis
    using series_map_error by blast
qed

lemma short_url_error_kinds:
  assumes r: "r \<in> set rs" and u: "map_of r ''url'' = Some (JStr u)"
    and e: "add_fields (DataFrame rs) = Inl e"
  shows "e \<in> {IndexError, AttributeError, TypeError, KeyError ''login'', KeyError ''author''}"
proof (cases "assign_mapped ''author'' ''author'' author_login (DataFrame rs)")
  case (Inl e1)
  with e have "e = e1"
    by (simp add: add_fields_def)
  with assign_mapped_error [OF Inl] author_login_error show ?thesis
    by blast
next
  case s1: (Inr df1)
  from assign_mapped_Inr [OF s1 well_formed_DataFrame]
  have wf1: "well_formed df1" and g1: "get_column df1 ''url'' = get_column (DataFrame rs) ''url''"
    by auto
  from g1 get_column_DataFrame [OF r u] have u1: "get_column df1 ''url'' \<noteq> Inl (KeyError ''url'')"
    by simp
  show ?thesis
  proof (cases "assign_mapped ''org'' ''url'' (url_segment 3) df1")
    case (Inl e2)
    with e s1 have "e = e2"
      by (simp add: add_fields_def)
    with assign_mapped_error [OF Inl] u1 url_segment_error_kinds show ?thesis
      by blast
  next
    case s2: (Inr df2)
    from assign_mapped_Inr [OF s2 wf1]
    have g2: "get_column df2 ''url'' = get_column df1 ''url''"
      by auto
    with u1 have u2: "get_column df2 ''url'' \<noteq> Inl (KeyError ''url'')"
      by simp
    from e s1 s2 have "assign_mapped ''repo'' ''url'' (url_segment 4) df2 = Inl e"
      by (simp add: add_fields_def)
    from assign_mapped_error [OF this] u2 url_segment_error_kinds show ?thesis
      by blast
  qed
qed

text \<open>
  C8, as the code has it. A table whose only record has a url of four pieces: building it
  raises \<open>IndexError\<close>, the exception of any list subscript out of range; and when the
  author of that record is a string, it raises \<open>TypeError\<close> at line 172, before the url is
  looked at. No exception of the code names the url.
\<close>

theorem short_url_error_is_not_about_urls:
  "length (split CHR ''/'' ''https://github.com/ORG'') < 5
   \<and> fst (finalize (fresh\<lparr>issues_and_or_prs := [short_url_issue]\<rparr>)) = Inl IndexError
   \<and> fst (finalize (fresh\<lparr>issues_and_or_prs := [short_url_text_author]\<rparr>)) = Inl TypeError"
  by (simp add: finalize_def short_url_issue_def short_url_text_author_def DataFrame_def cell_of_def
      assign_mapped_def get_column_def set_column_def index_def Let_def)

text \<open>
  C8, amended. When some record has a url with fewer than five pieces between slashes, the
  lambda of line 174 raises \<open>IndexError\<close> on that record (and so does the lambda of line 173
  when there are fewer than four pieces), and building the table raises one of
  \<open>IndexError\<close>, \<open>AttributeError\<close>, \<open>TypeError\<close>, \<open>KeyError\<close> for \<open>login\<close> and \<open>KeyError\<close> for \<open>author\<close>.
  When also every record has a proper author and a string as url, what is raised is
  \<open>IndexError\<close>.
\<close>

theorem short_url_raises:
  assumes "r \<in> set (issues_and_or_prs s)"
    and "map_of r ''url'' = Some (JStr u)"
    and "length (split CHR ''/'' u) < 5"
  shows "url_segment 4 (cell_of r ''url'') = Inl IndexError
         \<and> (length (split CHR ''/'' u) < 4 \<longrightarrow> url_segment 3 (cell_of r ''url'') = Inl IndexError)
         \<and> (\<exists>e. fst (finalize s) = Inl e
                \<and> e \<in> {IndexError, AttributeError, TypeError, KeyError ''login'', KeyError ''author''})
         \<and> ((\<forall>r \<in> set (issues_and_or_prs s). author_ok r \<and> (\<exists>v. map_of r ''url'' = Some (JStr v)))
              \<longrightarrow> fst (finalize s) = Inl IndexError)"
proof -
  have cell: "url_segment 4 (cell_of r ''url'') = Inl IndexError
      \<and> (length (split CHR ''/'' u) < 4 \<longrightarrow> url_segment 3 (cell_of r ''url'') = Inl IndexError)"
    using assms(2,3) by (simp add: cell_of_def index_def)
  show ?thesis
  proof (cases "add_fields (DataFrame (issues_and_or_prs s))")
    case (Inl e)
    from assms(1) have "issues_and_or_prs s \<noteq> []"
      by auto
    with Inl string_urls_IndexError [of "issues_and_or_prs s" e]
      short_url_error_kinds [OF assms(1,2) Inl] cell
    show ?thesis
      by (auto simp add: finalize_add_fields)
  next
    case (Inr df)
    with short_url_no_table [OF assms, of df] show ?thesis
      by simp
  qed
qed

theorem short_url_raises_witness:
  "fst (finalize (fresh\<lparr>issues_and_or_prs := [short_url_issue]\<rparr>)) = Inl IndexError
   \<and> url_segment 4 (cell_of short_url_issue ''url'') = Inl IndexError
   \<and> fst (finalize (fresh\<lparr>issues_and_or_prs := [bare_url_issue]\<rparr>)) = Inl IndexError
   \<and> url_segment 3 (cell_of bare_url_issue ''url'') = Inl IndexError"
  using short_url_raises [where s = "fresh\<lparr>issues_and_or_prs := [short_url_issue]\<rparr>"
      and r = short_url_issue and u = "''https://github.com/ORG''"]
    short_url_raises [where s = "fresh\<lparr>issues_and_or_prs := [bare_url_issue]\<rparr>"
      and r = bare_url_issue and u = "''ORG/REPO''"]
  by (simp add: short_url_issue_def bare_url_issue_def author_ok_def)

subsection \<open>The page count on small numbers\<close>

lemmas float_defs = expected_pages_def true_div_def float_quotient_def bit_length.simps pow2_def
  round_half_even_def Let_def

lemma expected_pages_1_50: "expected_pages 1 50 = Inr 1"
  by (simp add: float_defs)

lemma expected_pages_2_50: "expected_pages 2 50 = Inr 1"
  by (simp add: float_defs)

subsection \<open>One pass\<close>

text \<open>The first document has no cursor clause.\<close>

lemma first_document:
  \<open>ii_gql_query q n_per_page 0 prev =
     Inr (gql_template
            (join '', '' [''first: '' @ str_int n_per_page, ''query: "'' @ q @ ''"'', ''type: ISSUE''])
            comments_query base_elements)\<close>
  by (simp add: ii_gql_query_def github_search_query_def and_then_def)

lemma loop_pos:
  "0 < k \<Longrightarrow> loop srv n_per_page ii k prev s =
     (case pass srv n_per_page ii prev s of
        (Inl e, s1) \<Rightarrow> (Inl e, s1)
      | (Inr Return, s1) \<Rightarrow> (Inr Returned, s1)
      | (Inr Break, s1) \<Rightarrow> (Inr Broke, s1)
      | (Inr (Next p), s1) \<Rightarrow> loop srv n_per_page (Suc ii) (k - 1) (Some p) s1)"
  by (cases k) (auto split: prod.splits sum.splits flow.splits)

text \<open>What a pass does, case by case.\<close>

lemma pass_no_document:
  "ii_gql_query (query s) n_per_page ii prev = Inl e \<Longrightarrow> pass srv n_per_page ii prev s = (Inl e, s)"
  by (simp add: pass_def)

lemma pass_fetch_fails:
  assumes "ii_gql_query (query s) n_per_page ii prev = Inr doc"
    and "fst (fetch srv ii doc s) = Inl e"
  shows "\<exists>s1. pass srv n_per_page ii prev s = (Inl e, s1) \<and> posted s1 = posted s @ [doc]"
  using assms by (auto simp add: pass_def fetch_def Let_def split: if_splits option.splits)

lemma fetch_page:
  "fst (fetch srv ii doc s) = Inr json \<longleftrightarrow>
     status_code (srv ii doc) = 200 \<and> errors (srv ii doc) = None \<and> data_search (srv ii doc) = Some json"
  by (auto simp add: fetch_def Let_def split: if_splits option.splits)

lemma fetch_state:
  "fetch srv ii doc s = (r, s1) \<Longrightarrow>
     posted s1 = posted s @ [doc] \<and> query s1 = query s \<and> issues_and_or_prs s1 = issues_and_or_prs s"
  by (auto simp add: fetch_def Let_def split: if_splits option.splits)

lemma pass_zero_count:
  assumes "ii_gql_query (query s) n_per_page 0 prev = Inr doc"
    and "fst (fetch srv 0 doc s) = Inr json"
    and "issueCount json = 0"
  shows "\<exists>s1. pass srv n_per_page 0 prev s = (Inr Return, s1) \<and> posted s1 = posted s @ [doc]
           \<and> data s1 = Some empty_frame \<and> issues_and_or_prs s1 = issues_and_or_prs s"
  using assms by (auto simp add: pass_def fetch_def first_page_def Let_def split: if_splits option.splits)

lemma pass_count_fails:
  assumes "ii_gql_query (query s) n_per_page 0 prev = Inr doc"
    and "fst (fetch srv 0 doc s) = Inr json"
    and "issueCount json \<noteq> 0"
    and "expected_pages (issueCount json) n_per_page = Inl e"
  shows "\<exists>s1. pass srv n_per_page 0 prev s = (Inl e, s1) \<and> posted s1 = posted s @ [doc]"
  using assms by (auto simp add: pass_def fetch_def first_page_def Let_def split: if_splits option.splits)

lemma pass_widget_fails:
  assumes "ii_gql_query (query s) n_per_page 0 prev = Inr doc"
    and "fst (fetch srv 0 doc s) = Inr json"
    and "issueCount json \<noteq> 0"
    and "expected_pages (issueCount json) n_per_page = Inr m"
    and "m < 0"
  shows "\<exists>s1. pass srv n_per_page 0 prev s = (Inl TraitError, s1) \<and> posted s1 = posted s @ [doc]"
  using assms by (auto simp add: pass_def fetch_def first_page_def Let_def split: if_splits option.splits)

lemma pass_collects:
  assumes "ii_gql_query (query s) n_per_page ii prev = Inr doc"
    and "fst (fetch srv ii doc s) = Inr json"
    and "ii = 0 \<longrightarrow> issueCount json \<noteq> 0 \<and> (\<exists>m\<ge>0. expected_pages (issueCount json) n_per_page = Inr m)"
  shows "\<exists>s1. pass srv n_per_page ii prev s =
             (Inr (if hasNextPage (pageInfo json) then Next (pageInfo json) else Break), s1)
           \<and> posted s1 = posted s @ [doc]
           \<and> issues_and_or_prs s1 = issues_and_or_prs s @ nodes json
           \<and> query s1 = query s"
  using assms
  by (auto simp add: pass_def fetch_def first_page_def collect_def Let_def
      split: if_splits option.splits)

lemma pass_cases:
  obtains (no_document) e where "ii_gql_query (query s) n_per_page ii prev = Inl e"
      "pass srv n_per_page ii prev s = (Inl e, s)"
  | (raised) doc e s1 where "ii_gql_query (query s) n_per_page ii prev = Inr doc"
      "pass srv n_per_page ii prev s = (Inl e, s1)" "posted s1 = posted s @ [doc]"
      "fst (fetch srv ii doc s) = Inl e
       \<or> (\<exists>json. fst (fetch srv ii doc s) = Inr json \<and> ii = 0 \<and> issueCount json \<noteq> 0
            \<and> (expected_pages (issueCount json) n_per_page = Inl e
                 \<or> (\<exists>m<0. expected_pages (issueCount json) n_per_page = Inr m)))"
  | (returned) doc json s1 where "ii_gql_query (query s) n_per_page ii prev = Inr doc"
      "fst (fetch srv ii doc s) = Inr json" "ii = 0" "issueCount json = 0"
      "pass srv n_per_page ii prev s = (Inr Return, s1)" "posted s1 = posted s @ [doc]"
      "data s1 = Some empty_frame" "issues_and_or_prs s1 = issues_and_or_prs s"
  | (collected) doc json s1 where "ii_gql_query (query s) n_per_page ii prev = Inr doc"
      "fst (fetch srv ii doc s) = Inr json"
      "ii = 0 \<longrightarrow> issueCount json \<noteq> 0 \<and> (\<exists>m\<ge>0. expected_pages (issueCount json) n_per_page = Inr m)"
      "pass srv n_per_page ii prev s =
         (Inr (if hasNextPage (pageInfo json) then Next (pageInfo json) else Break), s1)"
      "posted s1 = posted s @ [doc]"
      "issues_and_or_prs s1 = issues_and_or_prs s @ nodes json"
      "query s1 = query s"
proof (cases "ii_gql_query (query s) n_per_page ii prev")
  case (Inl e)
  then show ?thesis
    using no_document pass_no_document by blast
next
  case doc: (Inr doc)
  show ?thesis
  proof (cases "fst (fetch srv ii doc s)")
    case (Inl e)
    with doc pass_fetch_fails [OF doc Inl] raised show ?thesis
      by blast
  next
    case json: (Inr json)
    show ?thesis
    proof (cases "ii = 0")
      case False
      with pass_collects [OF doc json] collected [OF doc json] show ?thesis
        by blast
    next
      case True
      show ?thesis
      proof (cases "issueCount json = 0")
        case z: True
        with True doc json pass_zero_count [of s n_per_page prev doc srv json] returned [OF doc json]
        show ?thesis
          by blast
      next
        case nz: False
        show ?thesis
        proof (cases "expected_pages (issueCount json) n_per_page")
          case (Inl e)
          with True doc json nz pass_count_fails [of s n_per_page prev doc srv json e]
            raised [OF doc, of e]
          show ?thesis
            by blast
        next
          case m: (Inr m)
          show ?thesis
          proof (cases "m < 0")
            case neg: True
            with True doc json nz m pass_widget_fails [of s n_per_page prev doc srv json m]
              raised [OF doc, of TraitError]
            show ?thesis
              by blast
          next
            case False
            with m have "\<exists>m\<ge>0. expected_pages (issueCount json) n_per_page = Inr m"
              by auto
            with nz pass_collects [OF doc json] collected [OF doc json] show ?thesis
              by blast
          qed
        qed
      qed
    qed
  qed
qed

subsection \<open>The loop\<close>

lemma fetch_is_page: "fst (fetch srv ii doc s) = Inr json \<longleftrightarrow> is_page (srv ii doc) json"
  by (simp add: fetch_page is_page_def)

lemma is_page_unique: "is_page r json \<Longrightarrow> is_page r json' \<Longrightarrow> json' = json"
  by (simp add: is_page_def)

lemma last_page_seen_Nil: "last_page_seen srv n_per_page ii [] out"
  by (simp add: last_page_seen_def)

lemma last_page_seen_Cons:
  assumes "is_page (srv ii doc) json" and "hasNextPage (pageInfo json)"
    and "last_page_seen srv n_per_page (Suc ii) ds out"
  shows "last_page_seen srv n_per_page ii (doc # ds) out"
  unfolding last_page_seen_def
proof (intro allI impI)
  fix k json'
  assume k: "k < length (doc # ds)"
    and p: "is_page (srv (ii + k) ((doc # ds) ! k)) json' \<and> \<not> hasNextPage (pageInfo json')"
  show "length (doc # ds) = Suc k
        \<and> (ii + k = 0 \<and> issueCount json' = 0 \<longrightarrow>
             fst out = Inr Returned \<and> data (snd out) = Some empty_frame)
        \<and> ((ii + k = 0 \<longrightarrow> issueCount json' \<noteq> 0
               \<and> (\<exists>m\<ge>0. expected_pages (issueCount json') n_per_page = Inr m)) \<longrightarrow>
             fst out = Inr Broke \<and> (\<exists>pre. issues_and_or_prs (snd out) = pre @ nodes json'))"
  proof (cases k)
    case 0
    with p assms(1) have "json' = json"
      using is_page_unique by auto
    with p assms(2) show ?thesis
      by simp
  next
    case (Suc j)
    with k p have "j < length ds"
      and "is_page (srv (Suc ii + j) (ds ! j)) json' \<and> \<not> hasNextPage (pageInfo json')"
      by simp_all
    with assms(3) show ?thesis
      unfolding last_page_seen_def Suc by (auto simp del: add_Suc)
  qed
qed

lemma loop_trace:
  "\<exists>ds. posted (snd (loop srv n_per_page ii n prev s)) = posted s @ ds \<and> length ds \<le> n
        \<and> last_page_seen srv n_per_page ii ds (loop srv n_per_page ii n prev s)"
proof (induction n arbitrary: ii prev s)
  case 0
  then show ?case
    by (simp add: last_page_seen_Nil)
next
  case (Suc n)
  show ?case
  proof (cases rule: pass_cases [of s n_per_page ii prev srv])
    case (no_document e)
    then show ?thesis
      by (simp add: last_page_seen_Nil)
  next
    case (raised doc e s1)
    have "last_page_seen srv n_per_page ii [doc] (Inl e, s1)"
      using raised(4) by (auto simp add: last_page_seen_def fetch_is_page [of srv _ _ s, symmetric])
    with raised(2,3) show ?thesis
      by (intro exI [of _ "[doc]"]) simp
  next
    case (returned doc json s1)
    have "last_page_seen srv n_per_page ii [doc] (Inr Returned, s1)"
      using returned(2,3,4,7)
      by (auto simp add: last_page_seen_def fetch_is_page [of srv _ _ s, symmetric])
    with returned(5,6) show ?thesis
      by (intro exI [of _ "[doc]"]) simp
  next
    case (collected doc json s1)
    show ?thesis
    proof (cases "hasNextPage (pageInfo json)")
      case False
      have "last_page_seen srv n_per_page ii [doc] (Inr Broke, s1)"
        using collected(2,3,6) False
        by (auto simp add: last_page_seen_def fetch_is_page [of srv _ _ s, symmetric])
      with collected(4,5) False show ?thesis
        by (intro exI [of _ "[doc]"]) simp
    next
      case True
      let ?out = "loop srv n_per_page (Suc ii) n (Some (pageInfo json)) s1"
      from Suc.IH [of "Suc ii" "Some (pageInfo json)" s1] obtain ds
        where ds: "posted (snd ?out) = posted s1 @ ds" "length ds \<le> n"
          "last_page_seen srv n_per_page (Suc ii) ds ?out"
        by blast
      from collected(2) have "is_page (srv ii doc) json"
        by (simp add: fetch_is_page)
      from last_page_seen_Cons [OF this True ds(3)]
      have "last_page_seen srv n_per_page ii (doc # ds) ?out" .
      with collected(4,5) True ds(1,2) show ?thesis
        by (intro exI [of _ "doc # ds"]) simp
    qed
  qed
qed

lemma finalize_posted: "posted (snd (finalize s)) = posted s"
  by (simp add: finalize_def Let_def split: sum.splits)

lemma later_document:
  \<open>ii_gql_query q n_per_page (Suc ii) (Some p) =
     Inr (gql_template
            (join '', '' [''first: '' @ str_int n_per_page, ''query: "'' @ q @ ''"'', ''type: ISSUE'',
                          ''after: "'' @ str_cursor (endCursor p) @ ''"''])
            comments_query base_elements)\<close>
  by (simp add: ii_gql_query_def github_search_query_def)

lemma loop_posted_extends:
  "\<exists>ds. posted (snd (loop srv n_per_page ii n prev s)) = posted s @ ds"
  using loop_trace [of srv n_per_page ii n prev s] by blast

text \<open>A run whose posted documents are all answered by pages with a next page.\<close>

lemma loop_all_next:
  assumes "posted (snd (loop srv n_per_page ii n prev s)) = posted s @ ds"
    and "\<forall>k<length ds. \<exists>json. is_page (srv (ii + k) (ds ! k)) json \<and> hasNextPage (pageInfo json)
            \<and> (ii + k = 0 \<longrightarrow> issueCount json \<noteq> 0
                  \<and> (\<exists>m\<ge>0. expected_pages (issueCount json) n_per_page = Inr m))"
    and "ii = 0 \<or> prev \<noteq> None"
  shows "length ds = n
         \<and> (\<exists>s1. loop srv n_per_page ii n prev s = (Inr Exhausted, s1)
               \<and> issues_and_or_prs s1 = issues_and_or_prs s @ pages_nodes srv ii ds)"
  using assms
proof (induction n arbitrary: ii prev s ds)
  case 0
  then show ?case
    by simp
next
  case (Suc n)
  from Suc.prems(3) obtain doc where doc: "ii_gql_query (query s) n_per_page ii prev = Inr doc"
    by (cases ii) (auto simp add: ii_gql_query_def github_search_query_def)
  show ?case
  proof (cases rule: pass_cases [of s n_per_page ii prev srv])
    case (no_document e)
    with doc show ?thesis
      by simp
  next
    case (raised doc' e s1)
    with Suc.prems(1) have ds: "ds = [doc']"
      by simp
    with Suc.prems(2) obtain json where "is_page (srv ii doc') json"
      and "ii = 0 \<longrightarrow> issueCount json \<noteq> 0
             \<and> (\<exists>m\<ge>0. expected_pages (issueCount json) n_per_page = Inr m)"
      by auto
    with raised(4) show ?thesis
      by (auto simp add: fetch_is_page [of srv _ _ s, symmetric])
  next
    case (returned doc' json' s1)
    with Suc.prems(1) have ds: "ds = [doc']"
      by simp
    with Suc.prems(2) obtain json where "is_page (srv ii doc') json"
      and "ii = 0 \<longrightarrow> issueCount json \<noteq> 0"
      by auto
    with returned(2,3,4) show ?thesis
      by (auto simp add: fetch_is_page [of srv _ _ s, symmetric])
  next
    case (collected doc' json s1)
    let ?rest = "loop srv n_per_page (Suc ii) n (Some (pageInfo json)) s1"
    from collected(2) have page: "is_page (srv ii doc') json"
      by (simp add: fetch_is_page)
    show ?thesis
    proof (cases "hasNextPage (pageInfo json)")
      case False
      with collected(4,5) Suc.prems(1) have "ds = [doc']"
        by simp
      with Suc.prems(2) obtain json' where "is_page (srv ii doc') json'" "hasNextPage (pageInfo json')"
        by auto
      with page False show ?thesis
        using is_page_unique by blast
    next
      case True
      from loop_posted_extends [of srv n_per_page "Suc ii" n "Some (pageInfo json)" s1] obtain ds'
        where ds': "posted (snd ?rest) = posted s1 @ ds'"
        by blast
      with collected(4,5) True Suc.prems(1) have ds: "ds = doc' # ds'"
        by simp
      have "\<forall>k<length ds'. \<exists>json. is_page (srv (Suc ii + k) (ds' ! k)) json \<and> hasNextPage (pageInfo json)
            \<and> (Suc ii + k = 0 \<longrightarrow> issueCount json \<noteq> 0
                  \<and> (\<exists>m\<ge>0. expected_pages (issueCount json) n_per_page = Inr m))"
      proof (intro allI impI)
        fix k
        assume "k < length ds'"
        with ds have "Suc k < length ds"
          by simp
        with Suc.prems(2) have "\<exists>json. is_page (srv (ii + Suc k) (ds ! Suc k)) json
            \<and> hasNextPage (pageInfo json)"
          by blast
        with ds show "\<exists>json. is_page (srv (Suc ii + k) (ds' ! k)) json \<and> hasNextPage (pageInfo json)
            \<and> (Suc ii + k = 0 \<longrightarrow> issueCount json \<noteq> 0
                  \<and> (\<exists>m\<ge>0. expected_pages (issueCount json) n_per_page = Inr m))"
          by simp
      qed
      from Suc.IH [OF ds' this] obtain s2
        where len: "length ds' = n" and l: "?rest = (Inr Exhausted, s2)"
          and i: "issues_and_or_prs s2 = issues_and_or_prs s1 @ pages_nodes srv (Suc ii) ds'"
        by auto
      from page have "data_search (srv ii doc') = Some json"
        by (simp add: is_page_def)
      with collected(4,6) True ds len l i show ?thesis
        by simp
    qed
  qed
qed


lemma request_posted:
  "posted (snd (request srv n n_per_page s)) =
     posted (snd (loop srv n_per_page 0 (nat n) None (s\<lparr>issues_and_or_prs := [], n_pages := n\<rparr>)))"
  by (cases "loop srv n_per_page 0 (nat n) None (s\<lparr>issues_and_or_prs := [], n_pages := n\<rparr>)")
    (auto simp add: request_def finalize_posted split: sum.splits loop_end.splits)

lemma endless_run:
  "\<exists>d0 d1. posted (snd (request endless 2 50 fresh)) = posted fresh @ [d0, d1]"
  by (simp add: request_posted loop_pos pass_def first_document later_document fetch_def
      endless_def page_def first_page_def expected_pages_2_50 collect_def Let_def fresh_def init_def)

text \<open>The records a loop has collected when it ends without the early return.\<close>

lemma loop_collects:
  assumes "loop srv n_per_page ii n prev s = (Inr r, s1)" and "r \<noteq> Returned"
    and "posted s1 = posted s @ ds"
  shows "issues_and_or_prs s1 = issues_and_or_prs s @ pages_nodes srv ii ds"
  using assms
proof (induction n arbitrary: ii prev s ds)
  case 0
  then show ?case
    by simp
next
  case (Suc n)
  show ?case
  proof (cases rule: pass_cases [of s n_per_page ii prev srv])
    case (no_document e)
    with Suc.prems(1) show ?thesis
      by simp
  next
    case (raised doc e s')
    with Suc.prems(1) show ?thesis
      by simp
  next
    case (returned doc json s')
    with Suc.prems(1,2) show ?thesis
      by simp
  next
    case (collected doc json s')
    from collected(2) have d: "data_search (srv ii doc) = Some json"
      by (simp add: fetch_page)
    show ?thesis
    proof (cases "hasNextPage (pageInfo json)")
      case False
      with collected(4) Suc.prems(1) have "s1 = s'"
        by simp
      with collected(5) Suc.prems(3) have "ds = [doc]"
        by simp
      with \<open>s1 = s'\<close> collected(6) d show ?thesis
        by simp
    next
      case True
      with collected(4) Suc.prems(1)
      have l: "loop srv n_per_page (Suc ii) n (Some (pageInfo json)) s' = (Inr r, s1)"
        by simp
      from loop_posted_extends [of srv n_per_page "Suc ii" n "Some (pageInfo json)" s'] l obtain ds'
        where ds': "posted s1 = posted s' @ ds'"
        by auto
      with collected(5) Suc.prems(3) have ds: "ds = doc # ds'"
        by simp
      from Suc.IH [OF l Suc.prems(2) ds'] collected(6) ds d show ?thesis
        by simp
    qed
  qed
qed



lemma two_pages_run:
  \<open>\<exists>d0 d1 s1. loop two_pages 50 0 (nat 100) None (fresh\<lparr>issues_and_or_prs := [], n_pages := 100\<rparr>) =
       (Inr Broke, s1)
     \<and> posted s1 = [d0, d1] \<and> issues_and_or_prs s1 = [alice_issue, ghost_pull]\<close>
  by (simp add: loop_pos pass_def first_document later_document fetch_def two_pages_def page_def
      first_page_def expected_pages_2_50 collect_def Let_def fresh_def init_def)

lemma no_hits_run:
  "\<exists>d0. posted (snd (request no_hits 100 50 fresh)) = posted fresh @ [d0]"
  by (simp add: request_def loop_pos pass_def first_document fetch_def no_hits_def page_def
      first_page_def Let_def fresh_def init_def)


subsection \<open>Fetching one page\<close>

text \<open>
  C2. A fetch whose reply has a status other than 200 raises the exception of line 132,
  with the status and the document in its message; a fetch whose reply has status 200 and
  a body with the key \<open>errors\<close> raises the exception of line 134, with the error list and the
  document in its message. Both end the fetch right after the POST, and the two exception
  values are never equal, whatever the status, the error list and the documents are.
\<close>

theorem fetch_failures:
  "(status_code (srv ii doc) \<noteq> 200 \<longrightarrow>
      fetch srv ii doc s =
        (Inl (Exception (status_message (status_code (srv ii doc)) doc)),
         s\<lparr>posted := posted s @ [doc]\<rparr>))
   \<and> (status_code (srv ii doc) = 200 \<and> errors (srv ii doc) = Some errs \<longrightarrow>
      fetch srv ii doc s =
        (Inl (Exception (errors_message errs doc)), s\<lparr>posted := posted s @ [doc]\<rparr>))
   \<and> Exception (status_message code doc) \<noteq> Exception (errors_message errs' doc')"
  by (simp add: fetch_def Let_def status_message_def errors_message_def)

theorem fetch_failures_witness:
  "fetch (\<lambda>k d. \<lparr>status_code = 401, errors = None, data_search = None\<rparr>) 0 ''doc''
       (init ''is:open'' None None) =
     (Inl (Exception (status_message 401 ''doc'')),
      (init ''is:open'' None None)\<lparr>posted := [''doc'']\<rparr>)
   \<and> fetch (\<lambda>k d. \<lparr>status_code = 200, errors = Some ''[bad]'', data_search = None\<rparr>) 1 ''doc''
       (init ''is:open'' None None) =
     (Inl (Exception (errors_message ''[bad]'' ''doc'')),
      (init ''is:open'' None None)\<lparr>posted := [''doc'']\<rparr>)"
  using fetch_failures [where srv = "\<lambda>k d. \<lparr>status_code = 401, errors = None, data_search = None\<rparr>"
      and ii = 0 and doc = "''doc''" and s = "init ''is:open'' None None"]
    fetch_failures [where srv = "\<lambda>k d. \<lparr>status_code = 200, errors = Some ''[bad]'', data_search = None\<rparr>"
      and ii = 1 and doc = "''doc''" and errs = "''[bad]''" and s = "init ''is:open'' None None"]
  by (simp add: init_def)

subsection \<open>The first page\<close>

text \<open>
  C3. When the reply to the first document is a page (status 200, no \<open>errors\<close>, data
  present) whose \<open>issueCount\<close> is 0, the call returns normally, \<open>self.data\<close> is the empty
  frame, no record has been collected, and the first document is the only one posted.
\<close>

theorem zero_count_is_success:
  assumes "0 < n"
    and "ii_gql_query (query s) n_per_page 0 None = Inr doc"
    and "status_code (srv 0 doc) = 200"
    and "errors (srv 0 doc) = None"
    and "data_search (srv 0 doc) = Some json"
    and "issueCount json = 0"
  shows "\<exists>s'. request srv n n_per_page s = (Inr (), s')
           \<and> data s' = Some empty_frame
           \<and> issues_and_or_prs s' = []
           \<and> posted s' = posted s @ [doc]"
proof -
  from assms(1) obtain k where k: "nat n = Suc k"
    by (cases "nat n") auto
  show ?thesis
    using assms(2-6)
    by (simp add: request_def k pass_def fetch_def first_page_def Let_def)
qed

theorem zero_count_is_success_witness:
  "\<exists>s'. request no_hits 100 50 fresh = (Inr (), s')
           \<and> data s' = Some empty_frame
           \<and> issues_and_or_prs s' = []
           \<and> length (posted s') = 1"
proof -
  obtain doc where d: "ii_gql_query (query fresh) 50 0 None = Inr doc"
    by (simp add: first_document)
  have "posted fresh = []"
    by (simp add: fresh_def init_def)
  with zero_count_is_success [of 100 fresh 50 doc no_hits, OF _ d]
  show ?thesis
    by (auto simp add: no_hits_def page_def)
qed

subsection \<open>A table without records\<close>

lemma finalize_empty:
  "issues_and_or_prs s = [] \<Longrightarrow>
     finalize s = (Inl (KeyError ''author''), s\<lparr>data := Some empty_frame\<rparr>)"
  by (simp add: finalize_def DataFrame_def assign_mapped_def get_column_def empty_frame_def)

text \<open>
  C9. The run against a server whose only page counts one item, lists no record and has no
  next page: one document is posted, the loop ends with no record collected, and building
  the table raises \<open>KeyError\<close> for the column \<open>author\<close>, which a frame built from no record
  does not have.
\<close>

theorem no_records_KeyError:
  "fst (request hollow_page 100 50 fresh) = Inl (KeyError ''author'')
   \<and> issues_and_or_prs (snd (request hollow_page 100 50 fresh)) = []
   \<and> data (snd (request hollow_page 100 50 fresh)) = Some empty_frame
   \<and> length (posted (snd (request hollow_page 100 50 fresh))) = 1"
proof -
  have "\<exists>s1. loop hollow_page 50 0 (nat 100) None (fresh\<lparr>issues_and_or_prs := [], n_pages := 100\<rparr>) =
               (Inr Broke, s1)
          \<and> issues_and_or_prs s1 = [] \<and> length (posted s1) = 1"
    by (simp add: loop_pos pass_def first_document fetch_def hollow_page_def page_def first_page_def
        expected_pages_1_50 collect_def Let_def fresh_def init_def)
  then obtain s1 where
    "loop hollow_page 50 0 (nat 100) None (fresh\<lparr>issues_and_or_prs := [], n_pages := 100\<rparr>) =
       (Inr Broke, s1)"
    and "issues_and_or_prs s1 = []" and "length (posted s1) = 1"
    by blast
  then show ?thesis
    by (simp add: request_def finalize_empty)
qed

subsection \<open>Reaching the bound on the number of pages\<close>

text \<open>
  C1, as the code has it. One pass is allowed and the page it fetches announces a next
  page: the call returns normally, and \<open>self.data\<close> is the table of the one record
  collected. Nothing marks the table as partial.
\<close>

theorem exhausted_is_success:
  "fst (request endless 1 50 fresh) = Inr ()
   \<and> data (snd (request endless 1 50 fresh)) =
       Some \<lparr>columns = [''title'', ''url'', ''author'', ''org'', ''repo''],
             rows = [[Val (JStr ''A bug''), Val (JStr ''https://github.com/ORG/REPO/issues/1''),
                      Val (JStr ''alice''), Val (JStr ''ORG''), Val (JStr ''REPO'')]]\<rparr>
   \<and> length (posted (snd (request endless 1 50 fresh))) = 1"
proof -
  have "\<exists>s1. loop endless 50 0 (nat 1) None (fresh\<lparr>issues_and_or_prs := [], n_pages := 1\<rparr>) =
               (Inr Exhausted, s1)
          \<and> issues_and_or_prs s1 = [alice_issue] \<and> length (posted s1) = 1"
    by (simp add: loop_pos pass_def first_document fetch_def endless_def page_def first_page_def
        expected_pages_2_50 collect_def Let_def fresh_def init_def)
  then obtain s1 where
    l: "loop endless 50 0 (nat 1) None (fresh\<lparr>issues_and_or_prs := [], n_pages := 1\<rparr>) =
          (Inr Exhausted, s1)"
    and i: "issues_and_or_prs s1 = [alice_issue]" and p: "length (posted s1) = 1"
    by blast
  have "finalize s1 =
          (Inr (), s1\<lparr>data := Some \<lparr>columns = [''title'', ''url'', ''author'', ''org'', ''repo''],
             rows = [[Val (JStr ''A bug''), Val (JStr ''https://github.com/ORG/REPO/issues/1''),
                      Val (JStr ''alice''), Val (JStr ''ORG''), Val (JStr ''REPO'')]]\<rparr>\<rparr>)"
    by (simp add: finalize_def i alice_issue_def DataFrame_def cell_of_def assign_mapped_def
        get_column_def set_column_def index_def Let_def)
  with l p show ?thesis
    by (simp add: request_def)
qed

text \<open>
  C1, amended. Let \<open>ds\<close> be the documents a call posts, in order. When each of them is
  answered by a page that announces a next page (the first with a count other than 0 from
  which lines 145 to 153 get a page count without raising), the call has posted exactly
  \<open>n_pages\<close> documents, the loop has ended because its range is used up, the records of all
  these pages are collected in order, and the call goes on to build the table from them as
  it does after a last page. When at least one record was collected and every record is
  well formed, the call returns normally with that table in \<open>self.data\<close>. No error is raised
  for reaching the bound.
\<close>

theorem exhausted_builds_table:
  assumes "posted (snd (request srv n n_per_page s)) = posted s @ ds"
    and "\<forall>k<length ds. \<exists>json. is_page (srv k (ds ! k)) json \<and> hasNextPage (pageInfo json)
            \<and> (k = 0 \<longrightarrow> issueCount json \<noteq> 0
                  \<and> (\<exists>m\<ge>0. expected_pages (issueCount json) n_per_page = Inr m))"
  shows "length ds = nat n
         \<and> (\<exists>s1. loop srv n_per_page 0 (nat n) None (s\<lparr>issues_and_or_prs := [], n_pages := n\<rparr>) =
                    (Inr Exhausted, s1)
               \<and> issues_and_or_prs s1 = pages_nodes srv 0 ds
               \<and> request srv n n_per_page s = finalize s1
               \<and> (pages_nodes srv 0 ds \<noteq> []
                    \<and> (\<forall>r \<in> set (pages_nodes srv 0 ds). author_ok r \<and> url_ok r) \<longrightarrow>
                  (\<exists>df. add_fields (DataFrame (pages_nodes srv 0 ds)) = Inr df
                     \<and> request srv n n_per_page s = (Inr (), s1\<lparr>data := Some df\<rparr>))))"
proof -
  let ?s0 = "s\<lparr>issues_and_or_prs := [], n_pages := n\<rparr>"
  from assms(1) have trace: "posted (snd (loop srv n_per_page 0 (nat n) None ?s0)) = posted ?s0 @ ds"
    by (simp add: request_posted)
  from assms(2) have pages: "\<forall>k<length ds. \<exists>json. is_page (srv (0 + k) (ds ! k)) json
            \<and> hasNextPage (pageInfo json)
            \<and> (0 + k = 0 \<longrightarrow> issueCount json \<noteq> 0
                  \<and> (\<exists>m\<ge>0. expected_pages (issueCount json) n_per_page = Inr m))"
    by simp
  from loop_all_next [OF trace pages] obtain s1
    where len: "length ds = nat n"
      and l: "loop srv n_per_page 0 (nat n) None ?s0 = (Inr Exhausted, s1)"
      and i: "issues_and_or_prs s1 = pages_nodes srv 0 ds"
    by auto
  from l have r: "request srv n n_per_page s = finalize s1"
    by (simp add: request_def)
  have "\<exists>df. add_fields (DataFrame (pages_nodes srv 0 ds)) = Inr df
          \<and> request srv n n_per_page s = (Inr (), s1\<lparr>data := Some df\<rparr>)"
    if "pages_nodes srv 0 ds \<noteq> []" "\<forall>r \<in> set (pages_nodes srv 0 ds). author_ok r \<and> url_ok r"
  proof -
    from add_fields_ok [OF that(2,1)] obtain df
      where df: "add_fields (DataFrame (pages_nodes srv 0 ds)) = Inr df"
      by blast
    with i have "finalize s1 = (Inr (), s1\<lparr>data := Some df\<rparr>)"
      by (simp add: finalize_data)
    with r df show ?thesis
      by simp
  qed
  with len l i r show ?thesis
    by blast
qed

theorem exhausted_builds_table_witness:
  "fst (request endless 2 50 fresh) = Inr ()
   \<and> issues_and_or_prs (snd (request endless 2 50 fresh)) = [alice_issue, alice_issue]
   \<and> length (posted (snd (request endless 2 50 fresh))) = 2"
proof -
  from endless_run obtain d0 d1
    where trace: "posted (snd (request endless 2 50 fresh)) = posted fresh @ [d0, d1]"
    by blast
  have pages: "\<forall>k<length [d0, d1]. \<exists>json. is_page (endless k ([d0, d1] ! k)) json
            \<and> hasNextPage (pageInfo json)
            \<and> (k = 0 \<longrightarrow> issueCount json \<noteq> 0
                  \<and> (\<exists>m\<ge>0. expected_pages (issueCount json) 50 = Inr m))"
    by (simp add: endless_def page_def is_page_def expected_pages_2_50)
  have nodes: "pages_nodes endless 0 [d0, d1] = [alice_issue, alice_issue]"
    by (simp add: endless_def page_def)
  from exhausted_builds_table [OF trace pages] obtain s1 df
    where "issues_and_or_prs s1 = [alice_issue, alice_issue]"
      and "request endless 2 50 fresh = (Inr (), s1\<lparr>data := Some df\<rparr>)"
    unfolding nodes by (auto simp add: examples_ok)
  with trace show ?thesis
    by (simp add: fresh_def init_def)
qed


subsection \<open>The last page\<close>

text \<open>
  C4, as the code has it. A first page without a next page that counts no item yet lists a
  record: the call returns the empty frame and the record is not collected. A first page
  without a next page whose record has a short url: the record is collected, and the call
  ends in \<open>IndexError\<close>.
\<close>

theorem last_page_not_always_kept:
  "fst (request miscounted 100 50 fresh) = Inr ()
   \<and> data (snd (request miscounted 100 50 fresh)) = Some empty_frame
   \<and> issues_and_or_prs (snd (request miscounted 100 50 fresh)) = []
   \<and> length (posted (snd (request miscounted 100 50 fresh))) = 1
   \<and> fst (request short_url_page 100 50 fresh) = Inl IndexError
   \<and> issues_and_or_prs (snd (request short_url_page 100 50 fresh)) = [short_url_issue]
   \<and> length (posted (snd (request short_url_page 100 50 fresh))) = 1"
proof -
  have a: "fst (request miscounted 100 50 fresh) = Inr ()
     \<and> data (snd (request miscounted 100 50 fresh)) = Some empty_frame
     \<and> issues_and_or_prs (snd (request miscounted 100 50 fresh)) = []
     \<and> length (posted (snd (request miscounted 100 50 fresh))) = 1"
    by (simp add: request_def loop_pos pass_def first_document fetch_def miscounted_def page_def
        first_page_def Let_def fresh_def init_def)
  have "\<exists>s1. loop short_url_page 50 0 (nat 100) None (fresh\<lparr>issues_and_or_prs := [], n_pages := 100\<rparr>) =
               (Inr Broke, s1)
          \<and> issues_and_or_prs s1 = [short_url_issue] \<and> length (posted s1) = 1"
    by (simp add: loop_pos pass_def first_document fetch_def short_url_page_def page_def first_page_def
        expected_pages_1_50 collect_def Let_def fresh_def init_def)
  then obtain s1 where
    l: "loop short_url_page 50 0 (nat 100) None (fresh\<lparr>issues_and_or_prs := [], n_pages := 100\<rparr>) =
         (Inr Broke, s1)"
    and i: "issues_and_or_prs s1 = [short_url_issue]" and p: "length (posted s1) = 1"
    by blast
  have "fst (finalize s1) = Inl IndexError \<and> issues_and_or_prs (snd (finalize s1)) = [short_url_issue]
          \<and> posted (snd (finalize s1)) = posted s1"
    by (simp add: finalize_def i short_url_issue_def DataFrame_def cell_of_def assign_mapped_def
        get_column_def set_column_def index_def Let_def)
  with l p have "fst (request short_url_page 100 50 fresh) = Inl IndexError
     \<and> issues_and_or_prs (snd (request short_url_page 100 50 fresh)) = [short_url_issue]
     \<and> length (posted (snd (request short_url_page 100 50 fresh))) = 1"
    by (simp add: request_def)
  with a show ?thesis
    by blast
qed


text \<open>
  C4, amended. Let \<open>ds\<close> be the documents a call posts, in order. When the reply to the
  \<open>k\<close>-th of them is a page without a next page, that document is the last one posted. If
  it is the first page and its count is 0, the call returns normally with the empty frame.
  Otherwise (lines 145 to 153 getting a page count from the count of a first page without
  raising) the loop has ended by \<open>break\<close>, the records collected are those of all pages
  fetched, in order, ending with the records of this page, and the call goes on to build
  the table; when at least one record was collected and every record is well formed, it
  returns normally with that table in \<open>self.data\<close>.
\<close>

theorem no_fetch_after_last_page:
  assumes "posted (snd (request srv n n_per_page s)) = posted s @ ds"
    and "k < length ds"
    and "is_page (srv k (ds ! k)) json"
    and "\<not> hasNextPage (pageInfo json)"
  shows "length ds = Suc k
         \<and> (k = 0 \<and> issueCount json = 0 \<longrightarrow>
              fst (request srv n n_per_page s) = Inr ()
              \<and> data (snd (request srv n n_per_page s)) = Some empty_frame)
         \<and> ((k = 0 \<longrightarrow> issueCount json \<noteq> 0
                \<and> (\<exists>m\<ge>0. expected_pages (issueCount json) n_per_page = Inr m)) \<longrightarrow>
              (\<exists>s1 pre. loop srv n_per_page 0 (nat n) None (s\<lparr>issues_and_or_prs := [], n_pages := n\<rparr>) =
                           (Inr Broke, s1)
                 \<and> issues_and_or_prs s1 = pre @ nodes json
                 \<and> issues_and_or_prs s1 = pages_nodes srv 0 ds
                 \<and> request srv n n_per_page s = finalize s1
                 \<and> (issues_and_or_prs s1 \<noteq> []
                      \<and> (\<forall>r \<in> set (issues_and_or_prs s1). author_ok r \<and> url_ok r) \<longrightarrow>
                    (\<exists>df. add_fields (DataFrame (issues_and_or_prs s1)) = Inr df
                       \<and> request srv n n_per_page s = (Inr (), s1\<lparr>data := Some df\<rparr>)))))"
proof -
  let ?s0 = "s\<lparr>issues_and_or_prs := [], n_pages := n\<rparr>"
  let ?out = "loop srv n_per_page 0 (nat n) None ?s0"
  from loop_trace [of srv n_per_page 0 "nat n" None ?s0] obtain ds'
    where p: "posted (snd ?out) = posted s @ ds'"
      and seen: "last_page_seen srv n_per_page 0 ds' ?out"
    by auto
  from p assms(1) have same: "ds' = ds"
    by (simp add: request_posted)
  with seen assms(2-4)
  have len: "length ds = Suc k"
    and zero: "k = 0 \<and> issueCount json = 0 \<longrightarrow>
                 fst ?out = Inr Returned \<and> data (snd ?out) = Some empty_frame"
    and broke: "(k = 0 \<longrightarrow> issueCount json \<noteq> 0
                   \<and> (\<exists>m\<ge>0. expected_pages (issueCount json) n_per_page = Inr m)) \<longrightarrow>
                 fst ?out = Inr Broke \<and> (\<exists>pre. issues_and_or_prs (snd ?out) = pre @ nodes json)"
    unfolding last_page_seen_def by auto
  from zero have z: "k = 0 \<and> issueCount json = 0 \<longrightarrow>
      fst (request srv n n_per_page s) = Inr ()
      \<and> data (snd (request srv n n_per_page s)) = Some empty_frame"
    by (cases ?out) (auto simp add: request_def)
  have b: "\<exists>s1 pre. ?out = (Inr Broke, s1) \<and> issues_and_or_prs s1 = pre @ nodes json
         \<and> issues_and_or_prs s1 = pages_nodes srv 0 ds
         \<and> request srv n n_per_page s = finalize s1
         \<and> (issues_and_or_prs s1 \<noteq> []
              \<and> (\<forall>r \<in> set (issues_and_or_prs s1). author_ok r \<and> url_ok r) \<longrightarrow>
            (\<exists>df. add_fields (DataFrame (issues_and_or_prs s1)) = Inr df
               \<and> request srv n n_per_page s = (Inr (), s1\<lparr>data := Some df\<rparr>)))"
    if "k = 0 \<longrightarrow> issueCount json \<noteq> 0
          \<and> (\<exists>m\<ge>0. expected_pages (issueCount json) n_per_page = Inr m)"
  proof -
    from broke that obtain s1 pre where out: "?out = (Inr Broke, s1)"
      and pre: "issues_and_or_prs s1 = pre @ nodes json"
      by (cases ?out) auto
    from out p same have "posted s1 = posted ?s0 @ ds"
      by simp
    from loop_collects [OF out _ this] have all: "issues_and_or_prs s1 = pages_nodes srv 0 ds"
      by simp
    from out have r: "request srv n n_per_page s = finalize s1"
      by (simp add: request_def)
    have "\<exists>df. add_fields (DataFrame (issues_and_or_prs s1)) = Inr df
            \<and> request srv n n_per_page s = (Inr (), s1\<lparr>data := Some df\<rparr>)"
      if "issues_and_or_prs s1 \<noteq> []" "\<forall>r \<in> set (issues_and_or_prs s1). author_ok r \<and> url_ok r"
    proof -
      from add_fields_ok [OF that(2,1)] obtain df
        where df: "add_fields (DataFrame (issues_and_or_prs s1)) = Inr df"
        by blast
      then have "finalize s1 = (Inr (), s1\<lparr>data := Some df\<rparr>)"
        by (rule finalize_data)
      with r df show ?thesis
        by simp
    qed
    with out pre all r show ?thesis
      by blast
  qed
  from len z b show ?thesis
    by blast
qed

theorem no_fetch_after_last_page_witness:
  "length (posted (snd (request two_pages 100 50 fresh))) = 2
   \<and> (\<exists>s1 df. loop two_pages 50 0 (nat 100) None (fresh\<lparr>issues_and_or_prs := [], n_pages := 100\<rparr>) =
                  (Inr Broke, s1)
        \<and> issues_and_or_prs s1 = [alice_issue, ghost_pull]
        \<and> request two_pages 100 50 fresh = (Inr (), s1\<lparr>data := Some df\<rparr>))
   \<and> fst (request no_hits 100 50 fresh) = Inr ()
   \<and> data (snd (request no_hits 100 50 fresh)) = Some empty_frame"
proof -
  from two_pages_run obtain d0 d1 s1
    where l: "loop two_pages 50 0 (nat 100) None (fresh\<lparr>issues_and_or_prs := [], n_pages := 100\<rparr>) =
                (Inr Broke, s1)"
      and p: "posted s1 = [d0, d1]"
    by blast
  from l p have trace: "posted (snd (request two_pages 100 50 fresh)) = posted fresh @ [d0, d1]"
    by (simp add: request_def finalize_posted fresh_def init_def)
  have page: "is_page (two_pages 1 ([d0, d1] ! 1))
                 \<lparr>issueCount = 2, pageInfo = \<lparr>endCursor = Some ''Y3Vyc29yOjI='', hasNextPage = False\<rparr>,
                  nodes = [ghost_pull]\<rparr>"
    by (simp add: two_pages_def page_def is_page_def)
  have nodes: "pages_nodes two_pages 0 [d0, d1] = [alice_issue, ghost_pull]"
    by (simp add: two_pages_def page_def)
  from no_hits_run obtain e0
    where trace0: "posted (snd (request no_hits 100 50 fresh)) = posted fresh @ [e0]"
    by blast
  have page0: "is_page (no_hits 0 ([e0] ! 0))
                 \<lparr>issueCount = 0, pageInfo = \<lparr>endCursor = None, hasNextPage = False\<rparr>, nodes = []\<rparr>"
    by (simp add: no_hits_def page_def is_page_def)
  from no_fetch_after_last_page [OF trace _ page]
  have a: "\<exists>s1 df. loop two_pages 50 0 (nat 100) None (fresh\<lparr>issues_and_or_prs := [], n_pages := 100\<rparr>) =
                  (Inr Broke, s1)
        \<and> issues_and_or_prs s1 = [alice_issue, ghost_pull]
        \<and> request two_pages 100 50 fresh = (Inr (), s1\<lparr>data := Some df\<rparr>)"
    unfolding nodes by (auto simp add: examples_ok)
  from no_fetch_after_last_page [OF trace0 _ page0]
  have b: "fst (request no_hits 100 50 fresh) = Inr ()
      \<and> data (snd (request no_hits 100 50 fresh)) = Some empty_frame"
    by simp
  from trace have "length (posted (snd (request two_pages 100 50 fresh))) = 2"
    by (simp add: fresh_def init_def)
  with a b show ?thesis
    by blast
qed

subsection \<open>A page without a cursor\<close>




subsection \<open>The expected number of pages\<close>

text \<open>Powers of two, the length in bits, and rounding to an integer.\<close>

lemma pow2_powi: "pow2 e = 2 powi e"
  by (simp add: pow2_def power_int_def inverse_eq_divide power_one_over)

lemma pow2_pos: "0 < pow2 e"
  by (simp add: pow2_powi)

lemma pow2_add: "pow2 (x + y) = pow2 x * pow2 y"
  by (simp add: pow2_powi power_int_add)

lemma pow2_nat: "pow2 (int n) = 2 ^ n"
  by (simp add: pow2_powi)

lemma pow2_less: "x < y \<Longrightarrow> pow2 x < pow2 y"
  by (simp add: pow2_powi power_int_strict_increasing)

lemma pow2_le: "x \<le> y \<Longrightarrow> pow2 x \<le> pow2 y"
  by (simp add: pow2_powi power_int_increasing)

lemma pow2_less_D: "pow2 x < pow2 y \<Longrightarrow> x < y"
  using pow2_le [of y x] by (cases "x < y") auto

lemma bit_length_bounds:
  "0 < n \<Longrightarrow> 2 ^ (bit_length n - 1) \<le> n \<and> n < 2 ^ bit_length n"
proof (induction n rule: bit_length.induct)
  case (1 n)
  show ?case
  proof (cases "n div 2 = 0")
    case True
    with "1.prems" have "n = 1"
      by (cases n) auto
    then show ?thesis
      by (simp add: bit_length.simps)
  next
    case False
    with "1.IH" "1.prems" have ih: "2 ^ (bit_length (n div 2) - 1) \<le> n div 2"
      "n div 2 < 2 ^ bit_length (n div 2)"
      by auto
    from False have pos: "0 < bit_length (n div 2)"
      by (simp add: bit_length.simps)
    have b: "bit_length n = Suc (bit_length (n div 2))"
      using "1.prems" by (simp add: bit_length.simps [of n])
    define P :: nat where "P = 2 ^ (bit_length (n div 2) - 1)"
    from pos have p: "(2::nat) ^ bit_length (n div 2) = 2 * P"
      unfolding P_def by (cases "bit_length (n div 2)") auto
    from ih p have "P \<le> n div 2" "n div 2 < 2 * P"
      by (simp_all add: P_def)
    then have "2 * P \<le> n \<and> n < 2 * (2 * P)"
      by arith
    with p show ?thesis
      by (simp add: b)
  qed
qed

text \<open>The exponent that \<open>float_quotient\<close> computes brackets the quotient.\<close>

lemma exponent_brackets:
  fixes a b :: nat
  assumes "0 < a" and "0 < b"
  defines "q \<equiv> real a / real b"
    and "e0 \<equiv> int (bit_length a) - int (bit_length b)"
  defines "e \<equiv> (if pow2 e0 \<le> q then e0 else e0 - 1)"
  shows "pow2 e \<le> q \<and> q < pow2 (e + 1)"
proof -
  from bit_length_bounds [OF assms(1)] have a: "2 ^ (bit_length a - 1) \<le> real a" "real a < 2 ^ bit_length a"
    by (metis of_nat_le_iff of_nat_numeral of_nat_power, metis of_nat_less_iff of_nat_numeral of_nat_power)
  from bit_length_bounds [OF assms(2)] have b: "2 ^ (bit_length b - 1) \<le> real b" "real b < 2 ^ bit_length b"
    by (metis of_nat_le_iff of_nat_numeral of_nat_power, metis of_nat_less_iff of_nat_numeral of_nat_power)
  from assms(1) have la: "0 < bit_length a"
    by (simp add: bit_length.simps [of a])
  from assms(2) have lb: "0 < bit_length b"
    by (simp add: bit_length.simps [of b])
  have a': "pow2 (int (bit_length a) - 1) \<le> real a" "real a < pow2 (int (bit_length a))"
    using a la by (simp_all add: pow2_nat [symmetric])
  have b': "pow2 (int (bit_length b) - 1) \<le> real b" "real b < pow2 (int (bit_length b))"
    using b lb by (simp_all add: pow2_nat [symmetric])
  have bpos: "0 < real b"
    using assms(2) by simp
  have upper: "q < pow2 (e0 + 1)"
  proof -
    have "pow2 (e0 + 1) * real b \<ge> pow2 (e0 + 1) * pow2 (int (bit_length b) - 1)"
      using b'(1) pow2_pos [of "e0 + 1"] by simp
    moreover have "pow2 (e0 + 1) * pow2 (int (bit_length b) - 1) = pow2 (int (bit_length a))"
      by (simp add: pow2_add [symmetric] e0_def)
    ultimately have "real a < pow2 (e0 + 1) * real b"
      using a'(2) by linarith
    with bpos show ?thesis
      by (simp add: q_def field_simps)
  qed
  have lower: "pow2 (e0 - 1) < q"
  proof -
    have "pow2 (e0 - 1) * real b < pow2 (e0 - 1) * pow2 (int (bit_length b))"
      using b'(2) pow2_pos [of "e0 - 1"] by simp
    moreover have "pow2 (e0 - 1) * pow2 (int (bit_length b)) = pow2 (int (bit_length a) - 1)"
      by (simp add: pow2_add [symmetric] e0_def)
    ultimately have "pow2 (e0 - 1) * real b < real a"
      using a'(1) by linarith
    with bpos show ?thesis
      by (simp add: q_def field_simps)
  qed
  show ?thesis
  proof (cases "pow2 e0 \<le> q")
    case True
    with upper show ?thesis
      by (simp add: e_def)
  next
    case False
    with lower show ?thesis
      by (simp add: e_def)
  qed
qed

lemma round_half_even_le: "x \<le> of_int z \<Longrightarrow> round_half_even x \<le> z"
proof -
  assume x: "x \<le> of_int z"
  then have f: "\<lfloor>x\<rfloor> \<le> z"
    by (simp add: floor_le_iff)
  show ?thesis
  proof (cases "\<lfloor>x\<rfloor> = z")
    case True
    with x have "x = of_int \<lfloor>x\<rfloor>"
      by (metis of_int_floor_le order_antisym)
    then have "x - of_int \<lfloor>x\<rfloor> = 0"
      by simp
    then show ?thesis
      using True by (simp add: round_half_even_def Let_def)
  next
    case False
    with f have "\<lfloor>x\<rfloor> + 1 \<le> z"
      by simp
    then show ?thesis
      by (simp add: round_half_even_def Let_def)
  qed
qed

lemma round_half_even_ge: "of_int z + 1 / 2 < x \<Longrightarrow> z + 1 \<le> round_half_even x"
proof -
  assume x: "of_int z + 1 / 2 < x"
  then have "of_int z \<le> x"
    by simp
  then have f: "z \<le> \<lfloor>x\<rfloor>"
    by (simp add: le_floor_iff)
  show ?thesis
  proof (cases "\<lfloor>x\<rfloor> = z")
    case True
    with x have "1 / 2 < x - of_int \<lfloor>x\<rfloor>"
      by simp
    then show ?thesis
      using True by (simp add: round_half_even_def Let_def)
  next
    case False
    with f have "z + 1 \<le> \<lfloor>x\<rfloor>"
      by simp
    then show ?thesis
      by (simp add: round_half_even_def Let_def)
  qed
qed


lemma float_quotient_exponent:
  fixes a b :: nat
  assumes "0 < a" and "0 < b"
  obtains e where "pow2 e \<le> real a / real b" and "real a / real b < pow2 (e + 1)"
    and "float_quotient a b =
           (if pow2 1024 \<le> real_of_int (round_half_even (real a / real b / pow2 (max e (- 1022) - 52))) *
                              pow2 (max e (- 1022) - 52)
            then Inl OverflowError
            else Inr (real_of_int (round_half_even (real a / real b / pow2 (max e (- 1022) - 52))) *
                      pow2 (max e (- 1022) - 52)))"
proof -
  let ?e0 = "int (bit_length a) - int (bit_length b)"
  let ?e = "if pow2 ?e0 \<le> real a / real b then ?e0 else ?e0 - 1"
  have "pow2 ?e \<le> real a / real b" "real a / real b < pow2 (?e + 1)"
    using exponent_brackets [OF assms] by simp_all
  moreover have "float_quotient a b =
           (if pow2 1024 \<le> real_of_int (round_half_even (real a / real b / pow2 (max ?e (- 1022) - 52))) *
                              pow2 (max ?e (- 1022) - 52)
            then Inl OverflowError
            else Inr (real_of_int (round_half_even (real a / real b / pow2 (max ?e (- 1022) - 52))) *
                      pow2 (max ?e (- 1022) - 52)))"
    unfolding float_quotient_def Let_def by (rule refl)
  ultimately show ?thesis
    using that by blast
qed

lemma float_quotient_ceiling:
  fixes a b :: nat
  assumes a: "0 < a" "a < 2 ^ 53" and b: "0 < b" "b \<le> 2 ^ 1022"
  shows "\<exists>v. float_quotient a b = Inr v \<and> \<lceil>v\<rceil> = \<lceil>real a / real b\<rceil>"
proof -
  define q where "q = real a / real b"
  from float_quotient_exponent [OF a(1) b(1)] obtain e
    where br: "pow2 e \<le> q" "q < pow2 (e + 1)"
      and fq: "float_quotient a b =
           (if pow2 1024 \<le> real_of_int (round_half_even (q / pow2 (max e (- 1022) - 52))) *
                              pow2 (max e (- 1022) - 52)
            then Inl OverflowError
            else Inr (real_of_int (round_half_even (q / pow2 (max e (- 1022) - 52))) *
                      pow2 (max e (- 1022) - 52)))"
    unfolding q_def by blast
  define u where "u = pow2 (e - 52)"
  define m where "m = round_half_even (q / u)"
  define v where "v = real_of_int m * u"
  define k where "k = \<lceil>q\<rceil>"
  have bpos: "0 < real b" and apos: "0 < real a"
    using a b by simp_all
  have qb: "q * real b = real a"
    using bpos by (simp add: q_def)
  have b1: "1 \<le> real b" and a1: "1 \<le> real a"
    using a b by simp_all
  have ble: "real b \<le> pow2 1022"
  proof -
    have "real b \<le> real (2 ^ 1022)"
      using b(2) by (simp only: of_nat_le_iff)
    then show ?thesis
      using pow2_nat [of 1022] by simp
  qed
  have alt: "real a < pow2 53"
  proof -
    have "real a < real (2 ^ 53)"
      using a(2) by (simp only: of_nat_less_iff)
    then show ?thesis
      using pow2_nat [of 53] by simp
  qed
  have qpos: "0 < q"
    using br(1) pow2_pos [of e] by linarith
  have q_le_a: "q \<le> real a"
  proof -
    have "q * 1 \<le> q * real b"
      using b1 qpos by (simp only: mult_left_mono less_imp_le)
    with qb show ?thesis
      by simp
  qed
  have "pow2 (- 1022) \<le> q"
  proof -
    have "pow2 (- 1022) * pow2 1022 = 1"
      by (simp add: pow2_add [symmetric] pow2_def)
    moreover have "pow2 (- 1022) * real b \<le> pow2 (- 1022) * pow2 1022"
      using ble pow2_pos [of "- 1022"] by (simp only: mult_left_mono less_imp_le)
    ultimately have "pow2 (- 1022) * real b \<le> q * real b"
      using a1 qb by linarith
    then show ?thesis
      using bpos by (simp only: mult_le_cancel_right_pos)
  qed
  with br(2) have "pow2 (- 1022) < pow2 (e + 1)"
    by linarith
  then have e_lo: "- 1022 \<le> e"
    using pow2_less_D [of "- 1022" "e + 1"] by linarith
  from br(1) q_le_a alt have "pow2 e < pow2 53"
    by linarith
  then have e_hi: "e \<le> 52"
    using pow2_less_D [of e 53] by linarith
  define N :: int where "N = 2 ^ nat (52 - e)"
  have N: "real_of_int N = pow2 (52 - e)"
    using e_hi pow2_nat [of "nat (52 - e)"] by (simp add: N_def)
  have uN: "u * real_of_int N = 1"
    unfolding N u_def by (simp add: pow2_add [symmetric] pow2_def)
  have upos: "0 < u"
    unfolding u_def by (rule pow2_pos)
  have Npos: "0 < real_of_int N"
    unfolding N by (rule pow2_pos)
  have qu: "q / u = q * real_of_int N"
  proof -
    have "inverse u = real_of_int N"
      using uN by (rule inverse_unique)
    moreover have "q / u = q * inverse u"
      by (rule divide_inverse)
    ultimately show ?thesis
      by (simp only:)
  qed
  have k: "q \<le> real_of_int k" "real_of_int k - 1 < q"
    unfolding k_def by linarith+
  have upper: "m \<le> k * N"
  proof -
    have "q * real_of_int N \<le> real_of_int k * real_of_int N"
      using k(1) Npos by (simp only: mult_right_mono less_imp_le)
    then have "q / u \<le> real_of_int (k * N)"
      by (simp only: qu of_int_mult)
    then show ?thesis
      unfolding m_def by (rule round_half_even_le)
  qed
  have gap: "(real_of_int (k - 1) * real b + 1) \<le> q * real b"
  proof -
    have "(real_of_int k - 1) * real b < q * real b"
      using k(2) bpos by (simp only: mult_strict_right_mono)
    then have "real_of_int ((k - 1) * int b) < real_of_int (int a)"
      using qb by simp
    then have "(k - 1) * int b < int a"
      by (simp only: of_int_less_iff)
    then have "(k - 1) * int b + 1 \<le> int a"
      by simp
    then have "real_of_int ((k - 1) * int b + 1) \<le> real_of_int (int a)"
      by (simp only: of_int_le_iff)
    then show ?thesis
      using qb by simp
  qed
  have twoN: "real b < 2 * real_of_int N"
  proof -
    have "pow2 e * real b \<le> q * real b"
      using br(1) bpos by (simp only: mult_right_mono less_imp_le)
    with alt qb have "pow2 e * real b < pow2 53"
      by linarith
    moreover have "pow2 53 = pow2 e * (2 * pow2 (52 - e))"
    proof -
      have "pow2 e * (pow2 1 * pow2 (52 - e)) = pow2 53"
        by (simp add: pow2_add [symmetric])
      moreover have "pow2 1 = 2"
        by (simp add: pow2_def)
      ultimately show ?thesis
        by simp
    qed
    ultimately have "pow2 e * real b < pow2 e * (2 * pow2 (52 - e))"
      by simp
    then have "real b < 2 * pow2 (52 - e)"
      using pow2_pos [of e] by (simp only: mult_less_cancel_left_pos)
    then show ?thesis
      by (simp only: N)
  qed
  have lower: "(k - 1) * N + 1 \<le> m"
  proof -
    have "(real_of_int (k - 1) * real b + 1) * real_of_int N \<le> q * real b * real_of_int N"
      using gap Npos by (simp only: mult_right_mono less_imp_le)
    then have "real_of_int (k - 1) * real_of_int N * real b + real_of_int N
                 \<le> q * real_of_int N * real b"
      by (simp add: algebra_simps)
    moreover have "real b * (1 / 2) < real_of_int N"
      using twoN by simp
    ultimately have "(real_of_int (k - 1) * real_of_int N + 1 / 2) * real b
                       < q * real_of_int N * real b"
      by (simp add: algebra_simps)
    then have "real_of_int (k - 1) * real_of_int N + 1 / 2 < q * real_of_int N"
      using bpos by (simp only: mult_less_cancel_right_pos)
    then have "real_of_int ((k - 1) * N) + 1 / 2 < q / u"
      by (simp only: qu of_int_mult)
    then show ?thesis
      unfolding m_def by (rule round_half_even_ge)
  qed
  have v_le: "v \<le> real_of_int k"
  proof -
    have "real_of_int m \<le> real_of_int (k * N)"
      using upper by (simp only: of_int_le_iff)
    then have "real_of_int m * u \<le> real_of_int (k * N) * u"
      using upos by (simp only: mult_right_mono less_imp_le)
    also have "real_of_int (k * N) * u = real_of_int k * (u * real_of_int N)"
      by simp
    finally show ?thesis
      by (simp only: uN mult_1_right v_def)
  qed
  have v_gt: "real_of_int k - 1 < v"
  proof -
    have "real_of_int ((k - 1) * N + 1) \<le> real_of_int m"
      using lower by (simp only: of_int_le_iff)
    then have "real_of_int ((k - 1) * N + 1) * u \<le> real_of_int m * u"
      using upos by (simp only: mult_right_mono less_imp_le)
    moreover have "real_of_int ((k - 1) * N + 1) * u = real_of_int (k - 1) * (u * real_of_int N) + u"
      by (simp add: algebra_simps)
    ultimately have "real_of_int (k - 1) + u \<le> v"
      by (simp only: uN mult_1_right v_def)
    with upos show ?thesis
      by simp
  qed
  have ceil: "\<lceil>v\<rceil> = k"
    using v_gt v_le by (rule ceiling_unique)
  have "real_of_int k \<le> real a"
  proof -
    have "k \<le> int a"
      unfolding k_def using q_le_a by (simp add: ceiling_le_iff)
    then have "real_of_int k \<le> real_of_int (int a)"
      by (simp only: of_int_le_iff)
    then show ?thesis
      by simp
  qed
  with v_le alt have "v < pow2 53"
    by linarith
  moreover have "pow2 53 < pow2 1024"
    by (rule pow2_less) simp
  ultimately have no_overflow: "\<not> pow2 1024 \<le> v"
    by linarith
  from e_lo have "max e (- 1022) = e"
    by simp
  with fq no_overflow have "float_quotient a b = Inr v"
    by (simp add: v_def m_def u_def)
  with ceil show ?thesis
    by (simp add: k_def q_def)
qed


lemma expected_pages_exact:
  assumes "0 \<le> a" and "a < 2 ^ 53" and "0 < b" and "b \<le> 2 ^ 1022"
  shows "expected_pages a b = Inr \<lceil>real_of_int a / real_of_int b\<rceil>"
proof (cases "a = 0")
  case True
  with assms(3) show ?thesis
    by (simp add: expected_pages_def true_div_def)
next
  case False
  with assms(1) have pos: "0 < nat a"
    by simp
  from assms(1,2) have "nat a < nat (2 ^ 53)"
    by (simp only: nat_less_eq_zless)
  then have lt: "nat a < 2 ^ 53"
    by simp
  from assms(3) have bpos: "0 < nat b"
    by simp
  from assms(3,4) have "nat b \<le> nat (2 ^ 1022)"
    by (simp only: nat_le_eq_zle)
  then have ble: "nat b \<le> 2 ^ 1022"
    by simp
  from float_quotient_ceiling [OF pos lt bpos ble] obtain v
    where v: "float_quotient (nat a) (nat b) = Inr v"
      and c: "\<lceil>v\<rceil> = \<lceil>real (nat a) / real (nat b)\<rceil>"
    by blast
  from assms(1,3) have "real (nat a) = real_of_int a" "real (nat b) = real_of_int b"
    by simp_all
  with c have "\<lceil>v\<rceil> = \<lceil>real_of_int a / real_of_int b\<rceil>"
    by simp
  moreover from assms(1,3) False v have "true_div a b = Inr v"
    by (simp add: true_div_def abs_of_nonneg abs_of_pos)
  ultimately show ?thesis
    by (simp add: expected_pages_def)
qed

text \<open>
  C5, as the code has it. For a count of \<open>2^53 + 1\<close> and a page size of 1 the quotient is
  rounded to the double \<open>2^53\<close>, and the expected number of pages is one less than the
  ceiling of the exact quotient.
\<close>

theorem page_count_rounds:
  "(0::int) < 1 \<and> (0::int) \<le> 9007199254740993
   \<and> \<lceil>real_of_int 9007199254740993 / real_of_int 1\<rceil> = 9007199254740993
   \<and> expected_pages 9007199254740993 1 = Inr 9007199254740992
   \<and> n_pages (snd (first_page 1 \<lparr>issueCount = 9007199254740993,
                                  pageInfo = \<lparr>endCursor = None, hasNextPage = True\<rparr>,
                                  nodes = []\<rparr> fresh)) = 9007199254740992"
proof -
  have "expected_pages 9007199254740993 1 = Inr 9007199254740992"
    by (simp add: float_defs)
  then show ?thesis
    by (simp add: first_page_def Let_def)
qed

text \<open>
  C5, amended. For a count from 0 below \<open>2^53\<close> and a page size from 1 to \<open>2^1022\<close>, line 145
  gives the ceiling of the exact quotient, which in integer arithmetic is
  \<open>- (- issueCount div n_per_page)\<close>; for a count other than 0 this is the value the first
  page binds to \<open>n_pages\<close>.
\<close>

theorem page_count_is_ceiling:
  assumes "0 \<le> issue_count" and "issue_count < 2 ^ 53"
    and "0 < n_per_page" and "n_per_page \<le> 2 ^ 1022"
  shows "expected_pages issue_count n_per_page =
           Inr \<lceil>real_of_int issue_count / real_of_int n_per_page\<rceil>
         \<and> \<lceil>real_of_int issue_count / real_of_int n_per_page\<rceil> = - (- issue_count div n_per_page)
         \<and> (issue_count \<noteq> 0 \<longrightarrow>
              fst (first_page n_per_page \<lparr>issueCount = issue_count, pageInfo = p, nodes = ns\<rparr> s) = Inr False
              \<and> n_pages (snd (first_page n_per_page \<lparr>issueCount = issue_count, pageInfo = p, nodes = ns\<rparr> s)) =
                  - (- issue_count div n_per_page))"
proof -
  have e: "expected_pages issue_count n_per_page =
             Inr \<lceil>real_of_int issue_count / real_of_int n_per_page\<rceil>"
    using assms by (rule expected_pages_exact)
  have c: "\<lceil>real_of_int issue_count / real_of_int n_per_page\<rceil> = - (- issue_count div n_per_page)"
    by (rule ceiling_divide_eq_div)
  have "0 \<le> real_of_int issue_count / real_of_int n_per_page"
    using assms(1,3) by simp
  then have "0 \<le> \<lceil>real_of_int issue_count / real_of_int n_per_page\<rceil>"
    by (simp add: zero_le_ceiling)
  with c have "\<not> - (- issue_count div n_per_page) < 0"
    by simp
  with e c show ?thesis
    by (simp add: first_page_def Let_def)
qed

theorem page_count_is_ceiling_witness:
  "expected_pages 120 50 = Inr 3
   \<and> n_pages (snd (first_page 50 \<lparr>issueCount = 120, pageInfo = \<lparr>endCursor = None, hasNextPage = True\<rparr>,
                                    nodes = []\<rparr> fresh)) = 3"
  using page_count_is_ceiling [of 120 50 "\<lparr>endCursor = None, hasNextPage = True\<rparr>" "[]" fresh]
  by simp

end
